theory Spec2Isabelle
  imports Complex_Main "HOL-Library.Extended_Nat" "HOL-Library.AList"
    "HOL-Library.Product_Lexorder"
begin

section \<open>Python values\<close>

text \<open>
  The program computes with Python floats, \<open>float('inf')\<close> included. A float is modelled
  as an exact real or plus infinity: rounding, NaN and minus infinity are outside the model.
  An operation that raises in Python (\<open>KeyError\<close>, \<open>TypeError\<close>) returns \<open>None\<close> in the model.
\<close>

datatype pyfloat = Fin real | PInf

instantiation pyfloat :: linorder
begin

fun less_eq_pyfloat :: "pyfloat \<Rightarrow> pyfloat \<Rightarrow> bool" where
  "less_eq_pyfloat (Fin a) (Fin b) = (a \<le> b)"
| "less_eq_pyfloat PInf (Fin b) = False"
| "less_eq_pyfloat x PInf = True"

definition less_pyfloat :: "pyfloat \<Rightarrow> pyfloat \<Rightarrow> bool" where
  "less_pyfloat x y = (x \<le> y \<and> \<not> y \<le> x)"

instance
proof
  fix x y z :: pyfloat
  show "(x < y) = (x \<le> y \<and> \<not> y \<le> x)" by (simp add: less_pyfloat_def)
  show "x \<le> x" by (cases x) simp_all
  show "x \<le> y \<Longrightarrow> y \<le> z \<Longrightarrow> x \<le> z" by (cases x; cases y; cases z) simp_all
  show "x \<le> y \<Longrightarrow> y \<le> x \<Longrightarrow> x = y" by (cases x; cases y) simp_all
  show "x \<le> y \<or> y \<le> x" by (cases x; cases y) auto
qed

end

lemma pyfloat_less_simps [simp]:
  "(Fin a < Fin b) = (a < b)" "Fin a < PInf" "\<not> PInf < x"
  by (cases x; auto simp: less_pyfloat_def)+

text \<open>Float addition: anything plus infinity is infinity.\<close>

fun fadd :: "pyfloat \<Rightarrow> pyfloat \<Rightarrow> pyfloat" where
  "fadd (Fin a) (Fin b) = Fin (a + b)"
| "fadd PInf y = PInf"
| "fadd x PInf = PInf"

text \<open>
  A Python \<open>set\<close> of vertex ids is a duplicate-free list; Python leaves the iteration order
  of a set open, the model iterates in ascending order. A \<open>dict\<close> is an association list
  in insertion order (\<open>AList.update\<close> overwrites in place or appends, as a dict does).
\<close>

type_synonym pyset = "int list"

definition set_add :: "int \<Rightarrow> pyset \<Rightarrow> pyset" where
  "set_add x s = (if x \<in> set s then s else insort x s)"

lemma set_set_add: "set (set_add x s) = insert x (set s)"
  by (auto simp: set_add_def set_insort_key)

lemma distinct_set_add: "distinct s \<Longrightarrow> distinct (set_add x s)"
  by (auto simp: set_add_def distinct_insort)

lemma length_set_add: "length (set_add x s) = (if x \<in> set s then length s else Suc (length s))"
  by (simp add: set_add_def)

section \<open>The ordered frontier (class SimplifiedLemma3_3_DataStructure)\<close>

text \<open>A bucket maps a key to its pair \<open>(alpha, pred)\<close>; \<open>pred\<close> may be Python's \<open>None\<close>.\<close>

type_synonym bucket = "(int \<times> (enat \<times> int option)) list"

record frontier =
  d_M :: nat
  d_B :: pyfloat
  d_values :: "pyfloat list"
  d_value_to_keys :: "pyfloat \<rightharpoonup> bucket"
  d_key_to_value :: "(int \<times> pyfloat) list"

definition new_frontier :: "int \<Rightarrow> pyfloat \<Rightarrow> frontier" where
  "new_frontier M B =
     \<lparr>d_M = nat (max 1 M), d_B = B, d_values = [], d_value_to_keys = Map.empty,
      d_key_to_value = []\<rparr>"

text \<open>\<open>bisect.insort\<close> (insort_right): insert after the entries not above \<open>x\<close>.\<close>

fun py_insort :: "pyfloat \<Rightarrow> pyfloat list \<Rightarrow> pyfloat list" where
  "py_insort x [] = [x]"
| "py_insort x (y # ys) = (if x < y then x # y # ys else y # py_insort x ys)"

text \<open>\<open>bisect.bisect_left\<close> on a sorted list: the number of entries below \<open>x\<close>.\<close>

definition bisect_left :: "pyfloat list \<Rightarrow> pyfloat \<Rightarrow> nat" where
  "bisect_left xs x = length (takeWhile (\<lambda>y. y < x) xs)"

definition add_to_value_bucket ::
  "pyfloat \<Rightarrow> int \<Rightarrow> enat \<Rightarrow> int option \<Rightarrow> frontier \<Rightarrow> frontier" where
  "add_to_value_bucket val key alpha pred_v_id D =
     (case d_value_to_keys D val of
        None \<Rightarrow>
          D\<lparr>d_values := py_insort val (d_values D),
            d_value_to_keys := (d_value_to_keys D)(val \<mapsto> [(key, (alpha, pred_v_id))]),
            d_key_to_value := AList.update key val (d_key_to_value D)\<rparr>
      | Some b \<Rightarrow>
          D\<lparr>d_value_to_keys :=
              (d_value_to_keys D)(val \<mapsto> AList.update key (alpha, pred_v_id) b),
            d_key_to_value := AList.update key val (d_key_to_value D)\<rparr>)"

definition remove_key :: "int \<Rightarrow> frontier \<Rightarrow> frontier" where
  "remove_key key D =
     (case map_of (d_key_to_value D) key of
        None \<Rightarrow> D
      | Some old_value \<Rightarrow>
         (let D1 = D\<lparr>d_key_to_value := AList.delete key (d_key_to_value D)\<rparr> in
          case d_value_to_keys D1 old_value of
            None \<Rightarrow> D1
          | Some valmap \<Rightarrow>
              if map_of valmap key = None then D1
              else
                (let valmap' = AList.delete key valmap in
                 if valmap' \<noteq> [] then
                   D1\<lparr>d_value_to_keys := (d_value_to_keys D1)(old_value \<mapsto> valmap')\<rparr>
                 else
                   (let idx = bisect_left (d_values D1) old_value in
                    D1\<lparr>d_value_to_keys := (d_value_to_keys D1)(old_value := None),
                       d_values :=
                         (if idx < length (d_values D1) \<and> d_values D1 ! idx = old_value
                          then take idx (d_values D1) @ drop (Suc idx) (d_values D1)
                          else d_values D1)\<rparr>))))"

text \<open>
  \<open>Insert\<close>: \<open>None\<close> is the \<open>KeyError\<close> of an inconsistent structure or the \<open>TypeError\<close>
  of comparing a \<open>None\<close> predecessor with \<open>>=\<close>.
\<close>

definition Insert :: "int \<Rightarrow> pyfloat \<Rightarrow> enat \<Rightarrow> int option \<Rightarrow> frontier \<Rightarrow> frontier option" where
  "Insert key val alpha pred_v_id D =
     (case map_of (d_key_to_value D) key of
        None \<Rightarrow> Some (add_to_value_bucket val key alpha pred_v_id D)
      | Some old_value \<Rightarrow>
         (case d_value_to_keys D old_value of
            None \<Rightarrow> None
          | Some b \<Rightarrow>
             (case map_of b key of
                None \<Rightarrow> None
              | Some (old_alpha, old_pred) \<Rightarrow>
                  if val > old_value then Some D
                  else if val = old_value \<and> alpha > old_alpha then Some D
                  else if val = old_value \<and> alpha = old_alpha then
                    (case (pred_v_id, old_pred) of
                       (Some p, Some q) \<Rightarrow>
                         if p \<ge> q then Some D
                         else Some (add_to_value_bucket val key alpha pred_v_id (remove_key key D))
                     | _ \<Rightarrow> None)
                  else Some (add_to_value_bucket val key alpha pred_v_id (remove_key key D)))))"

type_synonym item = "int \<times> pyfloat \<times> enat \<times> int option"

fun BatchPrepend :: "item list \<Rightarrow> frontier \<Rightarrow> frontier option" where
  "BatchPrepend [] D = Some D"
| "BatchPrepend ((key, val, alpha, pred_v_id) # L) D =
     (case Insert key val alpha pred_v_id D of
        None \<Rightarrow> None
      | Some D' \<Rightarrow> BatchPrepend L D')"

text \<open>
  The inner \<open>for key in keys\<close> of \<open>Pull\<close>; its state is the bucket, \<open>_key_to_value\<close>,
  \<open>S_prime\<close> and \<open>pulled_values\<close>, and it breaks once \<open>M\<close> keys are collected.
\<close>

fun take_keys ::
  "nat \<Rightarrow> pyfloat \<Rightarrow> int list \<Rightarrow> bucket \<times> (int \<times> pyfloat) list \<times> pyset \<times> pyfloat list \<Rightarrow>
   bucket \<times> (int \<times> pyfloat) list \<times> pyset \<times> pyfloat list" where
  "take_keys M sv [] st = st"
| "take_keys M sv (key # keys) (bkt, k2v, S_prime, pulled) =
     (if length S_prime \<ge> M then (bkt, k2v, S_prime, pulled)
      else take_keys M sv keys
             (AList.delete key bkt, AList.delete key k2v, set_add key S_prime, pulled @ [sv]))"

lemma take_keys_left:
  "take_keys M sv keys (bkt, k2v, S, pulled) = (bkt', k2v', S', pulled') \<Longrightarrow>
   fst ` set bkt \<subseteq> set keys \<Longrightarrow> bkt' \<noteq> [] \<Longrightarrow> M \<le> length S'"
proof (induction keys arbitrary: bkt k2v S pulled)
  case Nil
  then show ?case by simp
next
  case (Cons key keys)
  show ?case
  proof (cases "M \<le> length S")
    case True
    with Cons.prems show ?thesis by simp
  next
    case False
    have "fst ` set (AList.delete key bkt) \<subseteq> set keys"
      using Cons.prems(2) by (auto simp: AList.delete_eq)
    with Cons.IH Cons.prems(1,3) False show ?thesis by simp
  qed
qed

text \<open>The \<open>while self._values and len(S_prime) < self.M\<close> loop of \<open>Pull\<close>.\<close>

function pull_loop ::
  "frontier \<Rightarrow> pyset \<Rightarrow> pyfloat list \<Rightarrow> (frontier \<times> pyset \<times> pyfloat list) option" where
  "pull_loop D S_prime pulled =
     (if d_values D = [] \<or> \<not> length S_prime < d_M D then Some (D, S_prime, pulled)
      else
        (let smallest_value = hd (d_values D);
             bkt = (case d_value_to_keys D smallest_value of None \<Rightarrow> [] | Some b \<Rightarrow> b);
             r = take_keys (d_M D) smallest_value (map fst bkt)
                   (bkt, d_key_to_value D, S_prime, pulled)
         in if fst r = [] then
              (if d_value_to_keys D smallest_value = None then None
               else pull_loop
                      (D\<lparr>d_values := tl (d_values D),
                         d_value_to_keys := (d_value_to_keys D)(smallest_value := None),
                         d_key_to_value := fst (snd r)\<rparr>)
                      (fst (snd (snd r))) (snd (snd (snd r))))
            else pull_loop
                   (D\<lparr>d_value_to_keys := (d_value_to_keys D)(smallest_value \<mapsto> fst r),
                      d_key_to_value := fst (snd r)\<rparr>)
                   (fst (snd (snd r))) (snd (snd (snd r)))))"
  by pat_completeness auto
termination
proof (relation "measures [\<lambda>(D, S, p). length (d_values D),
                           \<lambda>(D, S, p). (if length S < d_M D then 1 else 0)]", goal_cases)
  case 1
  then show ?case by simp
next
  case (2 D S_prime pulled smallest bkt r)
  then show ?case by (cases "d_values D") auto
next
  case (3 D S_prime pulled smallest bkt r)
  obtain b k s p where r: "r = (b, k, s, p)" by (cases r) auto
  have tk: "take_keys (d_M D) smallest (map fst bkt) (bkt, d_key_to_value D, S_prime, pulled)
              = (b, k, s, p)"
    using 3(4) r by simp
  have ne: "b \<noteq> []" using 3(5) r by simp
  have "d_M D \<le> length s"
    by (rule take_keys_left[OF tk _ ne]) simp
  with r 3(1) show ?case by simp
qed

declare pull_loop.simps [simp del]

definition Pull :: "frontier \<Rightarrow> (pyfloat \<times> pyset \<times> frontier) option" where
  "Pull D =
     (case pull_loop D [] [] of
        None \<Rightarrow> None
      | Some (D', S_prime, pulled) \<Rightarrow>
          Some (case d_values D' of
                  v # vs \<Rightarrow> v
                | [] \<Rightarrow> (case pulled of
                           p # ps \<Rightarrow> fadd (fold max ps p) (Fin (1 / 10 ^ 12))
                         | [] \<Rightarrow> d_B D'),
                S_prime, D'))"

definition is_empty :: "frontier \<Rightarrow> bool" where
  "is_empty D = (d_key_to_value D = [])"

section \<open>Global state, parameters and the graph\<close>

record sssp_state =
  d_hat :: "int \<rightharpoonup> pyfloat"
  pred :: "int \<rightharpoonup> int option"
  path_alpha :: "int \<rightharpoonup> enat"

record environment =
  k_param :: nat
  t_param :: nat
  N_vertices :: int
  HEURISTICS_ENABLED :: bool
  HEURISTICS_SEEDING :: bool
  HEURISTICS_RELAX_INSERT :: bool
  HEURISTICS_LARGE_M :: bool
  HEURISTICS_BOUNDARY_EQUALITY :: bool
  HEURISTICS_ADJUST_BI :: bool

type_synonym graph = "(int \<times> (int \<times> pyfloat) list) list"

definition adj :: "graph \<Rightarrow> int \<Rightarrow> (int \<times> pyfloat) list" where
  "adj g u = (case map_of g u of None \<Rightarrow> [] | Some a \<Rightarrow> a)"

definition py_set :: "int list \<Rightarrow> pyset" where
  "py_set xs = fold set_add xs []"

definition d_get :: "sssp_state \<Rightarrow> int \<Rightarrow> pyfloat" where
  "d_get st v = (case d_hat st v of None \<Rightarrow> PInf | Some d \<Rightarrow> d)"

definition alpha_get :: "sssp_state \<Rightarrow> int \<Rightarrow> enat" where
  "alpha_get st v = (case path_alpha st v of None \<Rightarrow> \<infinity> | Some a \<Rightarrow> a)"

definition pred_or_minus1 :: "sssp_state \<Rightarrow> int \<Rightarrow> int" where
  "pred_or_minus1 st x = (case pred st x of Some (Some p) \<Rightarrow> p | _ \<Rightarrow> - 1)"

definition pred_get_minus1 :: "sssp_state \<Rightarrow> int \<Rightarrow> int option" where
  "pred_get_minus1 st x = (case pred st x of None \<Rightarrow> Some (- 1) | Some p \<Rightarrow> p)"

definition update_needed :: "sssp_state \<Rightarrow> pyfloat \<Rightarrow> enat \<Rightarrow> int \<Rightarrow> int \<Rightarrow> bool option" where
  "update_needed st new_dist new_alpha u v =
     (if new_dist < d_get st v then Some True
      else if new_dist = d_get st v then
        (if new_alpha < alpha_get st v then Some True
         else if new_alpha = alpha_get st v then
           (case pred st v of
              None \<Rightarrow> Some True
            | Some None \<Rightarrow> None
            | Some (Some p) \<Rightarrow> Some (u < p))
         else Some False)
      else Some False)"

definition apply_update :: "sssp_state \<Rightarrow> int \<Rightarrow> pyfloat \<Rightarrow> enat \<Rightarrow> int \<Rightarrow> sssp_state" where
  "apply_update st v new_dist new_alpha u =
     st\<lparr>d_hat := (d_hat st)(v \<mapsto> new_dist),
        path_alpha := (path_alpha st)(v \<mapsto> new_alpha),
        pred := (pred st)(v \<mapsto> Some u)\<rparr>"

section \<open>BaseCase\<close>

type_synonym heap_entry = "pyfloat \<times> enat \<times> int \<times> int"

definition heap_min :: "heap_entry list \<Rightarrow> heap_entry" where
  "heap_min H = fold min (tl H) (hd H)"

fun BaseCase_relax ::
  "pyfloat \<Rightarrow> pyfloat \<Rightarrow> enat \<Rightarrow> int \<Rightarrow> (int \<times> pyfloat) list \<Rightarrow>
   sssp_state \<times> heap_entry list \<Rightarrow> (sssp_state \<times> heap_entry list) option" where
  "BaseCase_relax B current_d current_alpha u [] (st, H) = Some (st, H)"
| "BaseCase_relax B current_d current_alpha u ((v, weight_uv) # es) (st, H) =
     (let new_dist = fadd current_d weight_uv; new_alpha = current_alpha + 1 in
      if new_dist < B then
        (case update_needed st new_dist new_alpha u v of
           None \<Rightarrow> None
         | Some update \<Rightarrow>
             if update then
               BaseCase_relax B current_d current_alpha u es
                 (apply_update st v new_dist new_alpha u, (new_dist, new_alpha, v, u) # H)
             else BaseCase_relax B current_d current_alpha u es (st, H))
      else BaseCase_relax B current_d current_alpha u es (st, H))"

definition stale :: "sssp_state \<Rightarrow> heap_entry \<Rightarrow> bool" where
  "stale st e =
     (case e of (current_d, current_alpha, u, current_pred_u) \<Rightarrow>
        current_d > d_get st u \<or>
        (current_d = d_get st u \<and> current_alpha > alpha_get st u) \<or>
        (current_d = d_get st u \<and> current_alpha = alpha_get st u \<and>
         current_pred_u > pred_or_minus1 st u))"

lemma heap_min_Min: "H \<noteq> [] \<Longrightarrow> heap_min H = Min (set H)"
  by (cases H) (simp_all add: heap_min_def Min.set_eq_fold[symmetric])

lemma heap_min_in: "H \<noteq> [] \<Longrightarrow> heap_min H \<in> set H"
  using Min_in[of "set H"] by (simp add: heap_min_Min)

function BaseCase_loop ::
  "environment \<Rightarrow> pyfloat \<Rightarrow> graph \<Rightarrow> sssp_state \<Rightarrow> heap_entry list \<Rightarrow> pyset \<Rightarrow>
   (int \<times> pyfloat) list \<Rightarrow> (sssp_state \<times> pyset \<times> (int \<times> pyfloat) list) option" where
  "BaseCase_loop env B g st H U0 candidates =
     (if H = [] \<or> \<not> length U0 < k_param env + 1 then Some (st, U0, candidates)
      else
        (let e = heap_min H; H1 = remove1 e H;
             current_d = fst e; current_alpha = fst (snd e); u = fst (snd (snd e)) in
         if stale st e then BaseCase_loop env B g st H1 U0 candidates
         else if u \<in> set U0 then BaseCase_loop env B g st H1 U0 candidates
         else
           (case BaseCase_relax B current_d current_alpha u (adj g u) (st, H1) of
              None \<Rightarrow> None
            | Some r \<Rightarrow>
                BaseCase_loop env B g (fst r) (snd r) (set_add u U0)
                  (AList.update u current_d candidates))))"
  by pat_completeness auto

termination
proof (relation "measures [\<lambda>(env, B, g, st, H, U0, c). k_param env + 1 - length U0,
                           \<lambda>(env, B, g, st, H, U0, c). length H]", goal_cases)
  case 1
  then show ?case by simp
next
  case (2 env B g st H U0 candidates e H1 current_d current_alpha u)
  then show ?case using heap_min_in[of H] by (auto simp: length_remove1)
next
  case (3 env B g st H U0 candidates e H1 current_d current_alpha u)
  then show ?case using heap_min_in[of H] by (auto simp: length_remove1)
next
  case (4 env B g st H U0 candidates e H1 current_d current_alpha u r)
  then show ?case by (auto simp: length_set_add)
qed

declare BaseCase_loop.simps [simp del]

definition BaseCase_seed :: "sssp_state \<Rightarrow> pyset \<Rightarrow> heap_entry list" where
  "BaseCase_seed st S =
     fold (\<lambda>x H. (d_get st x, alpha_get st x, x, pred_or_minus1 st x) # H) S []"

definition BaseCase ::
  "environment \<Rightarrow> pyfloat \<Rightarrow> pyset \<Rightarrow> graph \<Rightarrow> sssp_state \<Rightarrow>
   ((pyfloat \<times> pyset) \<times> sssp_state) option" where
  "BaseCase env B S g st =
     (case BaseCase_loop env B g st (BaseCase_seed st S) [] [] of
        None \<Rightarrow> None
      | Some (st', U0, candidates) \<Rightarrow>
          if length U0 \<le> k_param env then Some ((B, U0), st')
          else
            (let sorted_distances = sort (map snd candidates);
                 B_prime =
                   (if length sorted_distances > k_param env then sorted_distances ! k_param env
                    else (case sorted_distances of [] \<Rightarrow> B | d # ds \<Rightarrow> fold max ds d));
                 final_U = py_set (map fst (filter (\<lambda>(v, dist). dist < B_prime) candidates))
             in Some ((B_prime, final_U), st')))"

section \<open>FindPivots\<close>

type_synonym forest = "(int \<times> int list) list"

definition F_children :: "forest \<Rightarrow> int \<Rightarrow> int list" where
  "F_children F n = (case map_of F n of None \<Rightarrow> [] | Some cs \<Rightarrow> cs)"

function dfs_calculate_subtree_size :: "forest \<Rightarrow> int \<Rightarrow> int list \<Rightarrow> nat \<times> int list"
  and dfs_neighbors :: "forest \<Rightarrow> int list \<Rightarrow> nat \<Rightarrow> int list \<Rightarrow> nat \<times> int list" where
  "dfs_calculate_subtree_size F current_node visited =
     (if current_node \<in> set visited then (0, visited)
      else dfs_neighbors F (F_children F current_node) 1 (current_node # visited))"
| "dfs_neighbors F [] sz visited = (sz, visited)"
| "dfs_neighbors F (neighbor # ns) sz visited =
     (let r = dfs_calculate_subtree_size F neighbor visited
      in dfs_neighbors F ns (sz + fst r) (snd r))"
  by pat_completeness auto

lemma dfs_visited_mono:
  "dfs_calculate_subtree_size_dfs_neighbors_dom (Inl (F, current_node, visited)) \<Longrightarrow>
     set visited \<subseteq> set (snd (dfs_calculate_subtree_size F current_node visited))"
  "dfs_calculate_subtree_size_dfs_neighbors_dom (Inr (F, ns, sz, visited')) \<Longrightarrow>
     set visited' \<subseteq> set (snd (dfs_neighbors F ns sz visited'))"
proof (induction F current_node visited and F ns sz visited'
       rule: dfs_calculate_subtree_size_dfs_neighbors.pinduct)
  case (1 F current_node visited)
  then show ?case by (auto simp: dfs_calculate_subtree_size.psimps)
next
  case (2 F sz visited)
  then show ?case by (simp add: dfs_neighbors.psimps)
next
  case (3 F neighbor ns sz visited)
  then show ?case by (auto simp: dfs_neighbors.psimps Let_def)
qed

termination dfs_calculate_subtree_size
proof (relation "measures
    [\<lambda>x. case x of Inl (F, n, vis) \<Rightarrow> card (fst ` set F - set vis)
                 | Inr (F, ns, sz, vis) \<Rightarrow> card (fst ` set F - set vis),
     \<lambda>x. case x of Inl (F, n, vis) \<Rightarrow> 1 | Inr (F, ns, sz, vis) \<Rightarrow> 2 * length ns]", goal_cases)
  case 1
  then show ?case by simp
next
  case (2 F current_node visited)
  show ?case
  proof (cases "current_node \<in> fst ` set F")
    case True
    have "card (fst ` set F - set (current_node # visited)) < card (fst ` set F - set visited)"
      using True 2 by (intro psubset_card_mono) auto
    then show ?thesis by simp
  next
    case False
    then have "map_of F current_node = None" by (simp add: map_of_eq_None_iff)
    with False show ?thesis by (simp add: F_children_def)
  qed
next
  case (3 F neighbor ns sz visited)
  then show ?case by simp
next
  case (4 F neighbor ns sz visited r)
  have "set visited \<subseteq> set (snd r)" using dfs_visited_mono(1)[OF 4(2)] 4(1) by simp
  then have "card (fst ` set F - set (snd r)) \<le> card (fst ` set F - set visited)"
    by (intro card_mono) auto
  then show ?case by auto
qed

declare dfs_calculate_subtree_size.simps [simp del]

text \<open>The body of \<open>for v, weight_uv in graph[u].items()\<close> in a relaxation round.\<close>

fun FindPivots_relax ::
  "environment \<Rightarrow> pyfloat \<Rightarrow> int \<Rightarrow> (int \<times> pyfloat) list \<Rightarrow>
   sssp_state \<times> pyset \<times> pyset \<Rightarrow> (sssp_state \<times> pyset \<times> pyset) option" where
  "FindPivots_relax env B u [] (st, next_Wi, W) = Some (st, next_Wi, W)"
| "FindPivots_relax env B u ((v, weight_uv) # es) (st, next_Wi, W) =
     (case (d_hat st u, path_alpha st u) of
        (Some du, Some au) \<Rightarrow>
          (let new_dist = fadd du weight_uv; new_alpha = au + 1 in
           case update_needed st new_dist new_alpha u v of
             None \<Rightarrow> None
           | Some update \<Rightarrow>
               (let st' = (if update then apply_update st v new_dist new_alpha u else st);
                    within_bound =
                      (if HEURISTICS_ENABLED env \<and> HEURISTICS_BOUNDARY_EQUALITY env
                       then d_get st' v \<le> B else d_get st' v < B)
                in if within_bound
                   then FindPivots_relax env B u es (st', set_add v next_Wi, set_add v W)
                   else FindPivots_relax env B u es (st', next_Wi, W)))
      | _ \<Rightarrow> None)"

text \<open>\<open>for u in Wi_current_step\<close>: one round.\<close>

fun FindPivots_round ::
  "environment \<Rightarrow> pyfloat \<Rightarrow> graph \<Rightarrow> int list \<Rightarrow>
   sssp_state \<times> pyset \<times> pyset \<Rightarrow> (sssp_state \<times> pyset \<times> pyset) option" where
  "FindPivots_round env B g [] acc = Some acc"
| "FindPivots_round env B g (u # us) acc =
     (case FindPivots_relax env B u (adj g u) acc of
        None \<Rightarrow> None
      | Some acc' \<Rightarrow> FindPivots_round env B g us acc')"

text \<open>
  \<open>for i in range(k_param)\<close> with the early return; the first argument counts the rounds
  still to run, the flag in the result says whether the early return was taken.
\<close>

fun FindPivots_rounds ::
  "environment \<Rightarrow> pyfloat \<Rightarrow> pyset \<Rightarrow> graph \<Rightarrow> nat \<Rightarrow> sssp_state \<Rightarrow> pyset \<Rightarrow> pyset \<Rightarrow>
   (bool \<times> pyset \<times> sssp_state) option" where
  "FindPivots_rounds env B S g 0 st Wi_current_step W = Some (False, W, st)"
| "FindPivots_rounds env B S g (Suc i) st Wi_current_step W =
     (case FindPivots_round env B g Wi_current_step (st, [], W) of
        None \<Rightarrow> None
      | Some (st', next_Wi, W') \<Rightarrow>
          if length W' > k_param env * length S then Some (True, W', st')
          else FindPivots_rounds env B S g i st' next_Wi W')"

definition build_F_adj :: "sssp_state \<Rightarrow> pyset \<Rightarrow> pyset \<Rightarrow> forest" where
  "build_F_adj st S W =
     fold (\<lambda>v_node F.
             case pred st v_node of
               Some (Some p_node) \<Rightarrow>
                 if p_node \<in> set W \<or> p_node \<in> set S
                 then AList.update p_node (F_children F p_node @ [v_node]) F else F
             | _ \<Rightarrow> F) W []"

definition FindPivots ::
  "environment \<Rightarrow> pyfloat \<Rightarrow> pyset \<Rightarrow> graph \<Rightarrow> sssp_state \<Rightarrow>
   ((pyset \<times> pyset) \<times> sssp_state) option" where
  "FindPivots env B S g st =
     (case FindPivots_rounds env B S g (k_param env) st (py_set S) (py_set S) of
        None \<Rightarrow> None
      | Some (early, W, st') \<Rightarrow>
          if early then Some ((py_set S, W), st')
          else
            (let F_adj = build_F_adj st' S W;
                 P = fold (\<lambda>s_root P.
                             if s_root \<in> set W \<and>
                                fst (dfs_calculate_subtree_size F_adj s_root []) \<ge> k_param env
                             then set_add s_root P else P) S []
             in Some ((P, W), st')))"

section \<open>BMSSP\<close>

definition M_param :: "environment \<Rightarrow> int \<Rightarrow> int" where
  "M_param env l =
     (if HEURISTICS_ENABLED env \<and> HEURISTICS_LARGE_M env
      then (if (l - 1) * int (t_param env) \<ge> 0
            then max 64 (2 ^ nat ((l - 1) * int (t_param env))) else 64)
      else (if (l - 1) * int (t_param env) \<ge> 0
            then 2 ^ nat ((l - 1) * int (t_param env)) else 1))"

text \<open>\<open>for x in P: D.Insert(x, d_hat[x], path_alpha[x], pred.get(x, -1))\<close>\<close>

fun insert_pivots :: "sssp_state \<Rightarrow> int list \<Rightarrow> frontier \<Rightarrow> frontier option" where
  "insert_pivots st [] D = Some D"
| "insert_pivots st (x # xs) D =
     (case (d_hat st x, path_alpha st x) of
        (Some dx, Some ax) \<Rightarrow>
          (case Insert x dx ax (pred_get_minus1 st x) D of
             None \<Rightarrow> None
           | Some D' \<Rightarrow> insert_pivots st xs D')
      | _ \<Rightarrow> None)"

text \<open>The seeding heuristic: neighbours of \<open>W\<close> with a finite estimate enter \<open>D\<close>.\<close>

fun seed_neighbors :: "sssp_state \<Rightarrow> (int \<times> pyfloat) list \<Rightarrow> frontier \<Rightarrow> frontier option" where
  "seed_neighbors st [] D = Some D"
| "seed_neighbors st ((v_nb, w_nb) # es) D =
     (if map_of (d_key_to_value D) v_nb = None \<and> d_get st v_nb \<noteq> PInf then
        (case Insert v_nb (d_get st v_nb)
                (case path_alpha st v_nb of None \<Rightarrow> 0 | Some a \<Rightarrow> a)
                (pred_get_minus1 st v_nb) D of
           None \<Rightarrow> None
         | Some D' \<Rightarrow> seed_neighbors st es D')
      else seed_neighbors st es D)"

fun seed_from_W :: "sssp_state \<Rightarrow> graph \<Rightarrow> int list \<Rightarrow> frontier \<Rightarrow> frontier option" where
  "seed_from_W st g [] D = Some D"
| "seed_from_W st g (w # ws) D =
     (case seed_neighbors st (adj g w) D of
        None \<Rightarrow> None
      | Some D' \<Rightarrow> seed_from_W st g ws D')"

text \<open>The adjustment of a tiny \<open>Bi\<close>: the loops that compute the replacement value.\<close>

definition adjust_Bi :: "sssp_state \<Rightarrow> graph \<Rightarrow> pyset \<Rightarrow> pyfloat" where
  "adjust_Bi st g Si =
     (let min_pos =
            fold (\<lambda>u_si m.
                    fold (\<lambda>(v_nb, w_nb) m'.
                            let cand = fadd (d_get st u_si) w_nb
                            in if cand > d_get st u_si \<and> cand < m' then cand else m')
                         (adj g u_si) m) Si PInf
      in if min_pos < PInf then min_pos
         else fadd (case map (\<lambda>u_si. case d_hat st u_si of None \<Rightarrow> Fin 0 | Some d \<Rightarrow> d) Si of
                      [] \<Rightarrow> Fin 0
                    | d # ds \<Rightarrow> fold max ds d) (Fin (1 / 10 ^ 12)))"

text \<open>\<open>if HEURISTICS_ENABLED and HEURISTICS_ADJUST_BI and Bi < 1e-9\<close>\<close>

definition adjusted_Bi :: "environment \<Rightarrow> sssp_state \<Rightarrow> graph \<Rightarrow> pyfloat \<Rightarrow> pyset \<Rightarrow> pyfloat" where
  "adjusted_Bi env st g Bi0 Si =
     (if HEURISTICS_ENABLED env \<and> HEURISTICS_ADJUST_BI env \<and> Bi0 < Fin (1 / 10 ^ 9)
      then adjust_Bi st g Si else Bi0)"

text \<open>Step 5: the edges out of one completed vertex.\<close>

fun BMSSP_relax ::
  "environment \<Rightarrow> pyfloat \<Rightarrow> pyfloat \<Rightarrow> pyfloat \<Rightarrow> int \<Rightarrow> (int \<times> pyfloat) list \<Rightarrow>
   sssp_state \<times> frontier \<times> item list \<Rightarrow> (sssp_state \<times> frontier \<times> item list) option" where
  "BMSSP_relax env B Bi B_prime_i u_completed [] acc = Some acc"
| "BMSSP_relax env B Bi B_prime_i u_completed ((v_neighbor, weight_uv) # es) (st, D, K) =
     (case (d_hat st u_completed, path_alpha st u_completed) of
        (Some du, Some au) \<Rightarrow>
          (let new_dist = fadd du weight_uv; new_alpha = au + 1 in
           case update_needed st new_dist new_alpha u_completed v_neighbor of
             None \<Rightarrow> None
           | Some update \<Rightarrow>
               if update then
                 (let st' = apply_update st v_neighbor new_dist new_alpha u_completed in
                  if HEURISTICS_ENABLED env \<and> HEURISTICS_RELAX_INSERT env then
                    (case Insert v_neighbor new_dist new_alpha (Some u_completed) D of
                       None \<Rightarrow> None
                     | Some D' \<Rightarrow> BMSSP_relax env B Bi B_prime_i u_completed es (st', D', K))
                  else if Bi \<le> new_dist \<and> new_dist < B then
                    (case Insert v_neighbor new_dist new_alpha (Some u_completed) D of
                       None \<Rightarrow> None
                     | Some D' \<Rightarrow> BMSSP_relax env B Bi B_prime_i u_completed es (st', D', K))
                  else if B_prime_i \<le> new_dist \<and> new_dist < Bi then
                    BMSSP_relax env B Bi B_prime_i u_completed es
                      (st', D, K @ [(v_neighbor, new_dist, new_alpha, Some u_completed)])
                  else BMSSP_relax env B Bi B_prime_i u_completed es (st', D, K))
               else BMSSP_relax env B Bi B_prime_i u_completed es (st, D, K))
      | _ \<Rightarrow> None)"

fun BMSSP_relax_all ::
  "environment \<Rightarrow> pyfloat \<Rightarrow> pyfloat \<Rightarrow> pyfloat \<Rightarrow> graph \<Rightarrow> int list \<Rightarrow>
   sssp_state \<times> frontier \<times> item list \<Rightarrow> (sssp_state \<times> frontier \<times> item list) option" where
  "BMSSP_relax_all env B Bi B_prime_i g [] acc = Some acc"
| "BMSSP_relax_all env B Bi B_prime_i g (u_completed # us) acc =
     (case BMSSP_relax env B Bi B_prime_i u_completed (adj g u_completed) acc of
        None \<Rightarrow> None
      | Some acc' \<Rightarrow> BMSSP_relax_all env B Bi B_prime_i g us acc')"

text \<open>Step 6: the pulled vertices whose estimate lies in \<open>[B'_i, Bi)\<close>.\<close>

fun requeue_items :: "sssp_state \<Rightarrow> pyfloat \<Rightarrow> pyfloat \<Rightarrow> int list \<Rightarrow> item list option" where
  "requeue_items st B_prime_i Bi [] = Some []"
| "requeue_items st B_prime_i Bi (x_si # xs) =
     (if d_get st x_si \<ge> B_prime_i \<and> d_get st x_si < Bi then
        (case (d_hat st x_si, path_alpha st x_si) of
           (Some dx, Some ax) \<Rightarrow>
             (case requeue_items st B_prime_i Bi xs of
                None \<Rightarrow> None
              | Some items \<Rightarrow> Some ((x_si, dx, ax, pred_get_minus1 st x_si) # items))
         | _ \<Rightarrow> None)
      else requeue_items st B_prime_i Bi xs)"

definition max_U_size_for_level :: "environment \<Rightarrow> nat \<Rightarrow> nat" where
  "max_U_size_for_level env l = k_param env * 2 ^ (l * t_param env)"

definition max_iterations :: "environment \<Rightarrow> nat" where
  "max_iterations env = nat (max 1000 (N_vertices env * 10))"

text \<open>
  The main loop of a frame at level \<open>l > 0\<close>; \<open>rec\<close> is the recursive call \<open>BMSSP(l - 1, ...)\<close>.
  The result carries the final \<open>iteration_count\<close> next to the state the code after the loop
  reads.
\<close>

function BMSSP_loop ::
  "(pyfloat \<Rightarrow> pyset \<Rightarrow> sssp_state \<Rightarrow> ((pyfloat \<times> pyset) \<times> sssp_state) option) \<Rightarrow>
   environment \<Rightarrow> nat \<Rightarrow> pyfloat \<Rightarrow> graph \<Rightarrow>
   sssp_state \<Rightarrow> frontier \<Rightarrow> pyset \<Rightarrow> pyfloat \<Rightarrow> nat \<Rightarrow> nat \<Rightarrow> pyset \<Rightarrow>
   (sssp_state \<times> frontier \<times> pyset \<times> pyfloat \<times> nat) option" where
  "BMSSP_loop rec env l B g st D current_U last_B_prime_i iteration_count stall_count
       processed_vertices =
     (if \<not> (length current_U < max_U_size_for_level env l \<and> \<not> is_empty D)
      then Some (st, D, current_U, last_B_prime_i, iteration_count)
      else if iteration_count + 1 > max_iterations env
      then Some (st, D, current_U, last_B_prime_i, iteration_count + 1)
      else
        (case Pull D of
           None \<Rightarrow> None
         | Some (Bi0, Si, D1) \<Rightarrow>
             (let stalled = (set Si \<subseteq> set processed_vertices);
                  stall_count' = (if stalled then stall_count + 1 else 0);
                  processed' = (if stalled then processed_vertices
                                else fold set_add Si processed_vertices)
              in if stalled \<and> stall_count' > 5
                 then Some (st, D1, current_U, last_B_prime_i, iteration_count + 1)
                 else
                   (let Bi = adjusted_Bi env st g Bi0 Si
                    in case rec Bi Si st of
                         None \<Rightarrow> None
                       | Some ((B_prime_i, Ui), st1) \<Rightarrow>
                           (case BMSSP_relax_all env B Bi B_prime_i g Ui (st1, D1, []) of
                              None \<Rightarrow> None
                            | Some (st2, D2, K_batch_prepend) \<Rightarrow>
                                (case requeue_items st2 B_prime_i Bi Si of
                                   None \<Rightarrow> None
                                 | Some items \<Rightarrow>
                                     (case BatchPrepend (K_batch_prepend @ items) D2 of
                                        None \<Rightarrow> None
                                      | Some D3 \<Rightarrow>
                                          BMSSP_loop rec env l B g st2 D3
                                            (fold set_add Ui current_U) B_prime_i
                                            (iteration_count + 1) stall_count' processed')))))))"
  by pat_completeness auto
termination
  by (relation "measure (\<lambda>(rec, env, l, B, g, st, D, U, lb, iteration_count, sc, pv).
                           max_iterations env - iteration_count)") auto

declare BMSSP_loop.simps [simp del]

fun BMSSP ::
  "environment \<Rightarrow> nat \<Rightarrow> pyfloat \<Rightarrow> pyset \<Rightarrow> graph \<Rightarrow> sssp_state \<Rightarrow>
   ((pyfloat \<times> pyset) \<times> sssp_state) option" where
  "BMSSP env 0 B S g st = BaseCase env B S g st"
| "BMSSP env (Suc l) B S g st =
     (case FindPivots env B S g st of
        None \<Rightarrow> None
      | Some ((P, W), st1) \<Rightarrow>
          (case insert_pivots st1 P (new_frontier (M_param env (int (Suc l))) B) of
             None \<Rightarrow> None
           | Some D1 \<Rightarrow>
              (case (if HEURISTICS_ENABLED env \<and> HEURISTICS_SEEDING env
                     then seed_from_W st1 g W D1 else Some D1) of
                 None \<Rightarrow> None
               | Some D2 \<Rightarrow>
                   (let B_prime_0 = (case map (d_get st1) P of [] \<Rightarrow> B | d # ds \<Rightarrow> fold min ds d)
                    in case BMSSP_loop (\<lambda>Bi Si st'. BMSSP env l Bi Si g st') env (Suc l) B g
                              st1 D2 [] B_prime_0 0 0 [] of
                         None \<Rightarrow> None
                       | Some (st2, D3, current_U, last_B_prime_i, iteration_count) \<Rightarrow>
                           (let final_return_B_prime =
                                  (if is_empty D3 then B else min last_B_prime_i B);
                                U = fold (\<lambda>x_w U. if d_get st2 x_w < final_return_B_prime
                                                   then set_add x_w U else U) W current_U
                            in Some ((final_return_B_prime, U), st2))))))"

section \<open>The entry point\<close>

type_synonym edge = "int \<times> int \<times> pyfloat"

definition build_graph :: "edge list \<Rightarrow> graph" where
  "build_graph edges =
     fold (\<lambda>(u, v, weight) g. AList.update u (AList.update v weight (adj g u)) g) edges []"

text \<open>
  The module-level globals are an \<open>environment\<close> and an \<open>sssp_state\<close>; these are their values
  when the module is imported. A solve receives the globals an earlier call left behind.
\<close>

definition module_env :: environment where
  "module_env =
     \<lparr>k_param = 0, t_param = 0, N_vertices = 0,
      HEURISTICS_ENABLED = True, HEURISTICS_SEEDING = True, HEURISTICS_RELAX_INSERT = True,
      HEURISTICS_LARGE_M = True, HEURISTICS_BOUNDARY_EQUALITY = True,
      HEURISTICS_ADJUST_BI = True\<rparr>"

definition module_state :: sssp_state where
  "module_state = \<lparr>d_hat = Map.empty, pred = Map.empty, path_alpha = Map.empty\<rparr>"

text \<open>\<open>d_hat.clear(); pred.clear(); path_alpha.clear()\<close>\<close>

definition clear_state :: "sssp_state \<Rightarrow> sssp_state" where
  "clear_state st = st\<lparr>d_hat := Map.empty, pred := Map.empty, path_alpha := Map.empty\<rparr>"

text \<open>\<open>for v_id in range(N_vertices)\<close>\<close>

definition init_vertices :: "int \<Rightarrow> sssp_state \<Rightarrow> sssp_state" where
  "init_vertices n st =
     fold (\<lambda>v_id st. st\<lparr>d_hat := (d_hat st)(v_id \<mapsto> PInf),
                         path_alpha := (path_alpha st)(v_id \<mapsto> \<infinity>),
                         pred := (pred st)(v_id \<mapsto> None)\<rparr>) [0..n - 1] st"

definition init_source :: "int \<Rightarrow> sssp_state \<Rightarrow> sssp_state" where
  "init_source source st =
     st\<lparr>d_hat := (d_hat st)(source \<mapsto> Fin 0), path_alpha := (path_alpha st)(source \<mapsto> 0)\<rparr>"

definition n_for_log_calc :: "int \<Rightarrow> int" where
  "n_for_log_calc n = max 2 n"

text \<open>
  \<open>math.log(n, 2) ** (1/3)\<close> and its floor are taken over the reals: the parameters are
  those of exact arithmetic.
\<close>

definition solve_k_param :: "int \<Rightarrow> nat" where
  "solve_k_param n = nat (max 1 \<lfloor>log 2 (real_of_int (n_for_log_calc n)) powr (1 / 3)\<rfloor>)"

definition solve_t_param :: "int \<Rightarrow> nat" where
  "solve_t_param n = nat (max 1 \<lfloor>log 2 (real_of_int (n_for_log_calc n)) powr (2 / 3)\<rfloor>)"

definition l_max_level :: "int \<Rightarrow> nat" where
  "l_max_level n =
     (if n_for_log_calc n > 1
      then nat \<lceil>log 2 (real_of_int (n_for_log_calc n)) / real (solve_t_param n)\<rceil>
      else 0)"

definition solve_env :: "environment \<Rightarrow> int \<Rightarrow> environment" where
  "solve_env env n_val =
     env\<lparr>N_vertices := n_val, k_param := solve_k_param n_val, t_param := solve_t_param n_val\<rparr>"

text \<open>
  \<open>{v: d_hat[v] for v in range(N_vertices) if d_hat[v] != float('inf')}\<close>; every key of
  \<open>range(N_vertices)\<close> is in \<open>d_hat\<close> since the initialisation, so the lookup cannot fail.
\<close>

definition result_distances :: "int \<Rightarrow> sssp_state \<Rightarrow> (int \<times> pyfloat) list" where
  "result_distances n st =
     map (\<lambda>v. (v, d_get st v)) (filter (\<lambda>v. d_get st v \<noteq> PInf) [0..n - 1])"

text \<open>
  The entry point, from the globals \<open>env0\<close> and \<open>st0\<close> it finds to the distance map it
  returns and the globals it leaves.
\<close>

definition solve_sssp_directed_real_weights ::
  "environment \<Rightarrow> sssp_state \<Rightarrow> int \<Rightarrow> int \<Rightarrow> edge list \<Rightarrow> int \<Rightarrow>
   ((int \<times> pyfloat) list \<times> environment \<times> sssp_state) option" where
  "solve_sssp_directed_real_weights env0 st0 n_val m_val edges source =
     (let env = solve_env env0 n_val;
          st = init_source source (init_vertices n_val (clear_state st0))
      in case BMSSP env (l_max_level n_val) PInf [source] (build_graph edges) st of
           None \<Rightarrow> None
         | Some (r, st') \<Rightarrow> Some (result_distances n_val st', env, st'))"

section \<open>The reference Dijkstra (hybrid_sssp.dijkstra_single_source)\<close>

fun dijkstra_relax ::
  "pyfloat \<Rightarrow> (int \<times> pyfloat) list \<Rightarrow> (int \<times> pyfloat) list \<times> (pyfloat \<times> int) list \<Rightarrow>
   (int \<times> pyfloat) list \<times> (pyfloat \<times> int) list" where
  "dijkstra_relax d [] (dist_map, pq) = (dist_map, pq)"
| "dijkstra_relax d ((v, w) # es) (dist_map, pq) =
     (let new_dist = fadd d w in
      if new_dist < (case map_of dist_map v of None \<Rightarrow> PInf | Some x \<Rightarrow> x)
      then dijkstra_relax d es (AList.update v new_dist dist_map, (new_dist, v) # pq)
      else dijkstra_relax d es (dist_map, pq))"

lemma dijkstra_relax_pq:
  "snd ` set (snd (dijkstra_relax d es (dist_map, pq))) \<subseteq> fst ` set es \<union> snd ` set pq"
proof (induction es arbitrary: dist_map pq)
  case Nil
  then show ?case by simp
next
  case (Cons e es)
  obtain v w where e: "e = (v, w)" by (cases e) auto
  show ?case
    using Cons.IH[of "AList.update v (fadd d w) dist_map" "(fadd d w, v) # pq"] Cons.IH[of dist_map pq]
    by (auto simp: e Let_def)
qed

definition graph_targets :: "graph \<Rightarrow> int set" where
  "graph_targets g = (\<Union>a \<in> snd ` set g. fst ` set a)"

lemma adj_targets: "fst ` set (adj g u) \<subseteq> graph_targets g"
proof (cases "map_of g u")
  case None
  then show ?thesis by (simp add: adj_def)
next
  case (Some a)
  then have "(u, a) \<in> set g" by (rule map_of_SomeD)
  then have "a \<in> snd ` set g" by force
  then have "fst ` set a \<subseteq> graph_targets g" unfolding graph_targets_def by blast
  with Some show ?thesis by (simp add: adj_def)
qed

function dijkstra_loop ::
  "graph \<Rightarrow> (int \<times> pyfloat) list \<Rightarrow> (pyfloat \<times> int) list \<Rightarrow> pyset \<Rightarrow> (int \<times> pyfloat) list" where
  "dijkstra_loop g dist_map pq visited =
     (if pq = [] then dist_map
      else
        (let e = fold min (tl pq) (hd pq); pq1 = remove1 e pq in
         if snd e \<in> set visited then dijkstra_loop g dist_map pq1 visited
         else
           (let r = dijkstra_relax (fst e) (adj g (snd e)) (dist_map, pq1)
            in dijkstra_loop g (fst r) (snd r) (set_add (snd e) visited))))"
  by pat_completeness auto
termination
proof (relation "measures
     [\<lambda>(g, dist_map, pq, visited). card ((graph_targets g \<union> snd ` set pq) - set visited),
      \<lambda>(g, dist_map, pq, visited). length pq]", goal_cases)
  case 1
  then show ?case by simp
next
  case (2 g dist_map pq visited e pq1)
  have "e = Min (set pq)" using 2(1,2) by (cases pq) (simp_all add: Min.set_eq_fold[symmetric])
  then have ein: "e \<in> set pq" using 2(1) Min_in[of "set pq"] by simp
  have fin: "finite ((graph_targets g \<union> snd ` set pq) - set visited)"
    by (auto simp: graph_targets_def)
  have "set pq1 \<subseteq> set pq" unfolding 2(3) by (rule set_remove1_subset)
  then have "(graph_targets g \<union> snd ` set pq1) - set visited
          \<subseteq> (graph_targets g \<union> snd ` set pq) - set visited" by blast
  then have c: "card ((graph_targets g \<union> snd ` set pq1) - set visited)
          \<le> card ((graph_targets g \<union> snd ` set pq) - set visited)"
    using fin by (rule card_mono[rotated])
  have "length pq1 = length pq - 1" using ein unfolding 2(3) by (simp add: length_remove1)
  moreover have "0 < length pq" using 2(1) by simp
  ultimately have "length pq1 < length pq" by simp
  with c show ?case by (simp add: le_less)
next
  case (3 g dist_map pq visited e pq1 r)
  have "e = Min (set pq)" using 3(1,2) by (cases pq) (simp_all add: Min.set_eq_fold[symmetric])
  then have ein: "e \<in> set pq" using 3(1) Min_in[of "set pq"] by simp
  have fin: "finite ((graph_targets g \<union> snd ` set pq) - set visited)"
    by (auto simp: graph_targets_def)
  have s1: "set pq1 \<subseteq> set pq" unfolding 3(3) by (rule set_remove1_subset)
  have "snd ` set (snd r) \<subseteq> fst ` set (adj g (snd e)) \<union> snd ` set pq1"
    unfolding 3(5) by (rule dijkstra_relax_pq)
  then have sub: "snd ` set (snd r) \<subseteq> graph_targets g \<union> snd ` set pq"
    using adj_targets[of g "snd e"] s1 by blast
  have a: "snd e \<in> (graph_targets g \<union> snd ` set pq) - set visited" using ein 3(4) by blast
  have b: "snd e \<notin> (graph_targets g \<union> snd ` set (snd r)) - set (set_add (snd e) visited)"
    by (simp add: set_set_add)
  have c: "(graph_targets g \<union> snd ` set (snd r)) - set (set_add (snd e) visited)
          \<subseteq> (graph_targets g \<union> snd ` set pq) - set visited"
    using sub by (auto simp: set_set_add)
  from a b c have "(graph_targets g \<union> snd ` set (snd r)) - set (set_add (snd e) visited)
          \<subset> (graph_targets g \<union> snd ` set pq) - set visited" by blast
  then have "card ((graph_targets g \<union> snd ` set (snd r)) - set (set_add (snd e) visited))
          < card ((graph_targets g \<union> snd ` set pq) - set visited)"
    using fin by (rule psubset_card_mono[rotated])
  then show ?case by simp
qed

declare dijkstra_loop.simps [simp del]

definition dijkstra_single_source :: "graph \<Rightarrow> int \<Rightarrow> int \<Rightarrow> (int \<times> pyfloat) list" where
  "dijkstra_single_source graph_dict n source =
     dijkstra_loop graph_dict [(source, Fin 0)] [(Fin 0, source)] []"

section \<open>The frontier invariant\<close>


























section \<open>Claim C2: the boundary contract of Pull\<close>









section \<open>The parameters of a solve\<close>

lemma floor_cube_root_1:
  fixes x :: real
  assumes "1 \<le> x" "x < 8"
  shows "\<lfloor>x powr (1 / 3)\<rfloor> = (1::int)"
proof -
  have "(1::real) powr (1 / 3) \<le> x powr (1 / 3)" using assms(1) by (intro powr_mono2) auto
  then have lo: "1 \<le> x powr (1 / 3)" by simp
  have "x powr (1 / 3) < 8 powr (1 / 3)" using assms by (intro powr_less_mono2) auto
  also have "(8::real) powr (1 / 3) = (2 powr 3) powr (1 / 3)" by simp
  also have "\<dots> = 2" by (simp only: powr_powr) simp
  finally have hi: "x powr (1 / 3) < 2" .
  from lo hi show ?thesis by (simp add: floor_eq_iff)
qed

lemma floor_two_thirds_1:
  fixes x :: real
  assumes "1 \<le> x" "x * x < 8"
  shows "\<lfloor>x powr (2 / 3)\<rfloor> = (1::int)"
proof -
  have "x powr (2 / 3) = (x powr 2) powr (1 / 3)" by (simp only: powr_powr) simp
  also have "x powr 2 = x * x" using assms(1) by (simp add: power2_eq_square)
  finally have eq: "x powr (2 / 3) = (x * x) powr (1 / 3)" .
  have "1 * 1 \<le> x * x" using assms(1) by (intro mult_mono) auto
  then have "1 \<le> x * x" by simp
  from floor_cube_root_1[OF this assms(2)] eq show ?thesis by simp
qed

lemma log2_4: "log 2 4 = (2::real)"
proof -
  have "log 2 (2 ^ 2) = (2::real)" by (subst log_pow_cancel) auto
  then show ?thesis by simp
qed

lemma log2_5_bounds: "2 < log 2 5" "log 2 5 < (5 / 2 :: real)"
proof -
  have "log 2 4 < log 2 (5::real)" by (subst log_less_cancel_iff) auto
  then show "2 < log 2 5" by (simp add: log2_4)
  have "2 * log 2 5 = log 2 ((5::real) ^ 2)" by (subst log_nat_power) auto
  also have "\<dots> < log 2 ((2::real) ^ 5)" by (subst log_less_cancel_iff) auto
  also have "\<dots> = 5" by (subst log_pow_cancel) auto
  finally show "log 2 5 < (5 / 2 :: real)" by simp
qed


lemma params_4: "solve_k_param 4 = 1" "solve_t_param 4 = 1" "l_max_level 4 = 2"
proof -
  show k: "solve_k_param 4 = 1"
    using floor_cube_root_1[of "2::real"] by (simp add: solve_k_param_def n_for_log_calc_def log2_4)
  show t: "solve_t_param 4 = 1"
    using floor_two_thirds_1[of "2::real"] by (simp add: solve_t_param_def n_for_log_calc_def log2_4)
  show "l_max_level 4 = 2"
    by (simp add: l_max_level_def t n_for_log_calc_def log2_4)
qed

lemma params_5: "solve_k_param 5 = 1" "solve_t_param 5 = 1" "l_max_level 5 = 3"
proof -
  note b = log2_5_bounds
  have sq: "log 2 5 * log 2 5 < (8::real)"
  proof -
    have "log 2 5 * log 2 5 \<le> (5 / 2) * (5 / 2 :: real)"
      using b by (intro mult_mono) auto
    then show ?thesis by simp
  qed
  show k: "solve_k_param 5 = 1"
    using floor_cube_root_1[of "log 2 5"] b by (simp add: solve_k_param_def n_for_log_calc_def)
  show t: "solve_t_param 5 = 1"
    using floor_two_thirds_1[of "log 2 5"] b sq by (simp add: solve_t_param_def n_for_log_calc_def)
  have "\<lceil>log 2 (5::real)\<rceil> = (3::int)" using b by (simp add: ceiling_eq_iff)
  then show "l_max_level 5 = 3"
    by (simp add: l_max_level_def t n_for_log_calc_def)
qed




lemma clear_state_eq: "clear_state st = module_state"
  by (cases st) (simp add: clear_state_def module_state_def)


section \<open>Runs of the entry point\<close>

definition shipped_env :: "nat \<Rightarrow> nat \<Rightarrow> int \<Rightarrow> environment" where
  "shipped_env k t n = module_env\<lparr>k_param := k, t_param := t, N_vertices := n\<rparr>"

definition distances_after ::
  "environment \<Rightarrow> nat \<Rightarrow> int \<Rightarrow> edge list \<Rightarrow> int \<Rightarrow> (int \<times> pyfloat) list option" where
  "distances_after env l_max n_val edges source =
     map_option (\<lambda>r. result_distances n_val (snd r))
       (BMSSP env l_max PInf [source] (build_graph edges)
          (init_source source (init_vertices n_val (clear_state module_state))))"

lemma solve_distances:
  "map_option fst (solve_sssp_directed_real_weights env0 st0 n_val m_val edges source) =
   distances_after (solve_env env0 n_val) (l_max_level n_val) n_val edges source"
  by (simp add: solve_sssp_directed_real_weights_def distances_after_def clear_state_eq Let_def
      split: option.splits)

lemma solve_env_4: "solve_env module_env 4 = shipped_env 1 1 4"
  by (simp add: solve_env_def shipped_env_def params_4)

lemma solve_env_5: "solve_env module_env 5 = shipped_env 1 1 5"
  by (simp add: solve_env_def shipped_env_def params_5)

definition chain4 :: "edge list" where
  "chain4 = [(0, 1, Fin 1), (1, 2, Fin 1), (2, 3, Fin 1)]"

lemma chain4_run:
  "distances_after (shipped_env 1 1 4) 2 4 chain4 0 = Some [(0, Fin 0), (1, Fin 1), (2, Fin 2)]"
  by code_simp

definition graph5 :: "edge list" where
  "graph5 = [(2, 4, Fin 2), (3, 2, Fin 5), (1, 3, Fin 1), (3, 0, Fin 5), (0, 1, Fin 3),
             (3, 4, Fin 10)]"

lemma graph5_run:
  "distances_after (shipped_env 1 1 5) 3 5 graph5 0 =
     Some [(0, Fin 0), (1, Fin 3), (2, Fin 9), (3, Fin 4), (4, Fin 14)]"
  by code_simp

lemma graph5_dijkstra:
  "dijkstra_single_source (build_graph graph5) 5 0 =
     [(0, Fin 0), (1, Fin 3), (3, Fin 4), (2, Fin 9), (4, Fin 11)]"
  by code_simp

section \<open>Claim C9: the derived parameters\<close>




section \<open>Claim C10: a solve does not depend on the globals it finds\<close>

lemma init_vertices_fold:
  "fold (\<lambda>v_id st. st\<lparr>d_hat := (d_hat st)(v_id \<mapsto> PInf),
                       path_alpha := (path_alpha st)(v_id \<mapsto> \<infinity>),
                       pred := (pred st)(v_id \<mapsto> None)\<rparr>) xs st =
   \<lparr>d_hat = (\<lambda>v. if v \<in> set xs then Some PInf else d_hat st v),
    pred = (\<lambda>v. if v \<in> set xs then Some None else pred st v),
    path_alpha = (\<lambda>v. if v \<in> set xs then Some \<infinity> else path_alpha st v)\<rparr>"
proof (induction xs arbitrary: st)
  case Nil
  then show ?case by (cases st) simp
next
  case (Cons x xs)
  let ?F = "\<lambda>v_id st. st\<lparr>d_hat := (d_hat st)(v_id \<mapsto> PInf),
                       path_alpha := (path_alpha st)(v_id \<mapsto> \<infinity>),
                       pred := (pred st)(v_id \<mapsto> None)\<rparr>"
  have "fold ?F (x # xs) st = fold ?F xs (?F x st)" by simp
  also have "\<dots> = \<lparr>d_hat = (\<lambda>v. if v \<in> set xs then Some PInf else d_hat (?F x st) v),
    pred = (\<lambda>v. if v \<in> set xs then Some None else pred (?F x st) v),
    path_alpha = (\<lambda>v. if v \<in> set xs then Some \<infinity> else path_alpha (?F x st) v)\<rparr>"
    by (rule Cons.IH)
  also have "\<dots> = \<lparr>d_hat = (\<lambda>v. if v \<in> set (x # xs) then Some PInf else d_hat st v),
    pred = (\<lambda>v. if v \<in> set (x # xs) then Some None else pred st v),
    path_alpha = (\<lambda>v. if v \<in> set (x # xs) then Some \<infinity> else path_alpha st v)\<rparr>"
    by (auto simp: fun_eq_iff)
  finally show ?case .
qed

lemma solve_initial_state:
  "init_source source (init_vertices n (clear_state st0)) =
   \<lparr>d_hat = (\<lambda>v. if 0 \<le> v \<and> v < n then Some PInf else None)(source \<mapsto> Fin 0),
    pred = (\<lambda>v. if 0 \<le> v \<and> v < n then Some None else None),
    path_alpha = (\<lambda>v. if 0 \<le> v \<and> v < n then Some \<infinity> else None)(source \<mapsto> 0)\<rparr>"
  by (auto simp: init_source_def init_vertices_def init_vertices_fold clear_state_eq
      module_state_def fun_eq_iff)

lemma solve_leaves_flags:
  assumes "solve_sssp_directed_real_weights env0 st0 n m edges source = Some (r, env', st')"
  shows "env' = solve_env env0 n"
  using assms
  by (auto simp: solve_sssp_directed_real_weights_def Let_def split: option.splits)



section \<open>Claim C8: the relaxed-edge property of the result\<close>

text \<open>
  C8 fails on the chain \<open>0 \<rightarrow> 1 \<rightarrow> 2 \<rightarrow> 3\<close> with unit weights: vertex 2 is returned at distance 2,
  the edge \<open>(2, 3, 1.0)\<close> is in the graph, and vertex 3 is absent from the returned map.
\<close>

theorem chain4_edge_not_relaxed:
  "map_option fst (solve_sssp_directed_real_weights module_env module_state 4 3 chain4 0) =
     Some [(0, Fin 0), (1, Fin 1), (2, Fin 2)] \<and>
   (2, 3, Fin 1) \<in> set chain4"
proof -
  have "map_option fst (solve_sssp_directed_real_weights module_env module_state 4 3 chain4 0) =
        distances_after (solve_env module_env 4) (l_max_level 4) 4 chain4 0"
    by (rule solve_distances)
  also have "\<dots> = distances_after (shipped_env 1 1 4) 2 4 chain4 0"
    by (simp only: solve_env_4 params_4)
  also have "\<dots> = Some [(0, Fin 0), (1, Fin 1), (2, Fin 2)]" by (rule chain4_run)
  finally show ?thesis by (simp add: chain4_def)
qed

section \<open>Claim C1: agreement with the reference Dijkstra\<close>

text \<open>
  C1 fails on \<open>graph5\<close>: vertex 4 is returned at distance 14, the reference Dijkstra finds 11.
\<close>

theorem graph5_wrong_distance:
  "map_option fst (solve_sssp_directed_real_weights module_env module_state 5 6 graph5 0) =
     Some [(0, Fin 0), (1, Fin 3), (2, Fin 9), (3, Fin 4), (4, Fin 14)] \<and>
   dijkstra_single_source (build_graph graph5) 5 0 =
     [(0, Fin 0), (1, Fin 3), (3, Fin 4), (2, Fin 9), (4, Fin 11)]"
proof -
  have "map_option fst (solve_sssp_directed_real_weights module_env module_state 5 6 graph5 0) =
        distances_after (solve_env module_env 5) (l_max_level 5) 5 graph5 0"
    by (rule solve_distances)
  also have "\<dots> = distances_after (shipped_env 1 1 5) 3 5 graph5 0"
    by (simp only: solve_env_5 params_5)
  also have "\<dots> = Some [(0, Fin 0), (1, Fin 3), (2, Fin 9), (3, Fin 4), (4, Fin 14)]"
    by (rule graph5_run)
  finally show ?thesis using graph5_dijkstra by simp
qed

section \<open>Claim C3: the acceptance rule at the three relaxation sites\<close>

text \<open>
  The rule as the specification words it: the candidate triple is lexicographically
  strictly below the stored triple (distance, then path length, then predecessor id).
\<close>

definition tie_break_accepts :: "pyfloat \<times> enat \<times> int \<Rightarrow> pyfloat \<times> enat \<times> int \<Rightarrow> bool" where
  "tie_break_accepts new old =
     (case (new, old) of
        ((new_distance, new_path_length, u), (distance_v, path_length_v, predecessor_v)) \<Rightarrow>
          new_distance < distance_v \<or>
          (new_distance = distance_v \<and>
             (new_path_length < path_length_v \<or>
              (new_path_length = path_length_v \<and> u < predecessor_v))))"

lemma update_needed_rule:
  "pred st v = Some (Some p) \<Longrightarrow>
   update_needed st nd na u v =
     Some (tie_break_accepts (nd, na, u) (d_get st v, alpha_get st v, p))"
  by (auto simp: update_needed_def tie_break_accepts_def)

lemma update_needed_no_pred:
  "pred st v = None \<Longrightarrow>
   update_needed st nd na u v =
     Some (nd < d_get st v \<or> (nd = d_get st v \<and> na \<le> alpha_get st v))"
  by (auto simp: update_needed_def)

lemma update_needed_None_pred:
  "pred st v = Some None \<Longrightarrow>
   update_needed st nd na u v =
     (if nd = d_get st v \<and> na = alpha_get st v then None
      else Some (nd < d_get st v \<or> (nd = d_get st v \<and> na < alpha_get st v)))"
  by (auto simp: update_needed_def)

definition relax_state :: "sssp_state \<Rightarrow> bool \<Rightarrow> int \<Rightarrow> pyfloat \<Rightarrow> enat \<Rightarrow> int \<Rightarrow> sssp_state" where
  "relax_state st accepted v new_dist new_alpha u =
     (if accepted then apply_update st v new_dist new_alpha u else st)"

lemma FindPivots_relax_single:
  assumes "d_hat st u = Some du" "path_alpha st u = Some au" "pred st v = Some (Some p)"
  shows "map_option fst (FindPivots_relax env B u [(v, w)] (st, next_Wi, W)) =
         Some (relax_state st
                 (tie_break_accepts (fadd du w, au + 1, u) (d_get st v, alpha_get st v, p))
                 v (fadd du w) (au + 1) u)"
  using assms by (simp add: update_needed_rule relax_state_def Let_def)

lemma BaseCase_relax_single:
  assumes "pred st v = Some (Some p)"
  shows "map_option fst (BaseCase_relax B current_d current_alpha u [(v, w)] (st, H)) =
         Some (relax_state st
                 (fadd current_d w < B \<and>
                  tie_break_accepts (fadd current_d w, current_alpha + 1, u)
                    (d_get st v, alpha_get st v, p))
                 v (fadd current_d w) (current_alpha + 1) u)"
  using assms by (simp add: update_needed_rule relax_state_def Let_def)

lemma BMSSP_relax_single:
  assumes "d_hat st u = Some du" "path_alpha st u = Some au" "pred st v = Some (Some p)"
    and "BMSSP_relax env B Bi B_prime_i u [(v, w)] (st, D, K) = Some r"
  shows "fst r = relax_state st
                 (tie_break_accepts (fadd du w, au + 1, u) (d_get st v, alpha_get st v, p))
                 v (fadd du w) (au + 1) u"
  using assms
  by (auto simp: update_needed_rule relax_state_def Let_def split: if_splits option.splits)

definition relax_example_state :: sssp_state where
  "relax_example_state =
     \<lparr>d_hat = [0 \<mapsto> Fin 1, 1 \<mapsto> Fin 10],
      pred = [0 \<mapsto> None, 1 \<mapsto> Some 7],
      path_alpha = [0 \<mapsto> 1, 1 \<mapsto> 3]\<rparr>"

lemma relax_example_facts:
  "d_hat relax_example_state 0 = Some (Fin 1)"
  "path_alpha relax_example_state 0 = Some 1"
  "pred relax_example_state 1 = Some (Some 7)"
  "d_get relax_example_state 1 = Fin 10"
  "alpha_get relax_example_state 1 = 3"
  by (simp_all add: relax_example_state_def d_get_def alpha_get_def)

lemma relax_example_accepts:
  "tie_break_accepts (fadd (Fin 1) (Fin 5), 1 + 1, 0) (Fin 10, 3, 7)"
  by (simp add: tie_break_accepts_def less_pyfloat_def)

text \<open>
  C3 as stated fails at BaseCase: with bound \<open>B = 2\<close>, the edge \<open>(0, 1, 5.0)\<close> out of a vertex at
  distance 1 gives the triple \<open>(6, 2, 0)\<close>, lexicographically below the stored \<open>(10, 3, 7)\<close>;
  FindPivots accepts the update, BaseCase leaves the state unchanged.
\<close>

theorem BaseCase_rejects_accepted_triple:
  "tie_break_accepts (fadd (Fin 1) (Fin 5), 1 + 1, 0)
     (d_get relax_example_state 1, alpha_get relax_example_state 1, 7) \<and>
   map_option fst (FindPivots_relax module_env (Fin 2) 0 [(1, Fin 5)]
                     (relax_example_state, [], [])) =
     Some (apply_update relax_example_state 1 (fadd (Fin 1) (Fin 5)) (1 + 1) 0) \<and>
   map_option fst (BaseCase_relax (Fin 2) (Fin 1) 1 0 [(1, Fin 5)] (relax_example_state, [])) =
     Some relax_example_state \<and>
   d_hat (apply_update relax_example_state 1 (fadd (Fin 1) (Fin 5)) (1 + 1) 0) 1 = Some (Fin 6) \<and>
   d_hat relax_example_state 1 = Some (Fin 10)"
proof -
  note f = relax_example_facts
  have a: "tie_break_accepts (fadd (Fin 1) (Fin 5), 1 + 1, 0)
     (d_get relax_example_state 1, alpha_get relax_example_state 1, 7)"
    using relax_example_accepts by (simp only: f)
  have b: "map_option fst (FindPivots_relax module_env (Fin 2) 0 [(1, Fin 5)]
                     (relax_example_state, [], [])) =
     Some (apply_update relax_example_state 1 (fadd (Fin 1) (Fin 5)) (1 + 1) 0)"
    unfolding FindPivots_relax_single[OF f(1) f(2) f(3)] using a by (simp add: relax_state_def)
  have c: "map_option fst (BaseCase_relax (Fin 2) (Fin 1) 1 0 [(1, Fin 5)]
                     (relax_example_state, [])) = Some relax_example_state"
    unfolding BaseCase_relax_single[OF f(3)] by (simp add: relax_state_def)
  have d: "d_hat (apply_update relax_example_state 1 (fadd (Fin 1) (Fin 5)) (1 + 1) 0) 1 =
             Some (Fin 6)"
    by (simp add: apply_update_def)
  have e: "d_hat relax_example_state 1 = Some (Fin 10)" by (simp add: relax_example_state_def)
  from a b c d e show ?thesis by blast
qed

text \<open>
  C3, amended. Where the target \<open>v\<close> has a predecessor id \<open>p\<close>, FindPivots' rounds and BMSSP's
  post-recursion relaxation accept the update of \<open>v\<close> via \<open>u\<close> exactly when
  \<open>(d_hat[u] + w, path_alpha[u] + 1, u)\<close> is lexicographically strictly below
  \<open>(d_hat[v], path_alpha[v], p)\<close>; BaseCase applies the same comparison to the distance and
  path length of the popped heap entry, and accepts only if, in addition, the new distance
  is strictly below the bound \<open>B\<close>.
\<close>

theorem relaxation_rule_at_sites:
  assumes "d_hat st u = Some du" "path_alpha st u = Some au" "pred st v = Some (Some p)"
  shows
    "map_option fst (FindPivots_relax env B u [(v, w)] (st, next_Wi, W)) =
       Some (relax_state st
               (tie_break_accepts (fadd du w, au + 1, u) (d_get st v, alpha_get st v, p))
               v (fadd du w) (au + 1) u) \<and>
     (\<forall>r. BMSSP_relax env B Bi B_prime_i u [(v, w)] (st, D, K) = Some r \<longrightarrow>
          fst r = relax_state st
                    (tie_break_accepts (fadd du w, au + 1, u) (d_get st v, alpha_get st v, p))
                    v (fadd du w) (au + 1) u) \<and>
     map_option fst (BaseCase_relax B current_d current_alpha u [(v, w)] (st, H)) =
       Some (relax_state st
               (fadd current_d w < B \<and>
                tie_break_accepts (fadd current_d w, current_alpha + 1, u)
                  (d_get st v, alpha_get st v, p))
               v (fadd current_d w) (current_alpha + 1) u)"
  using FindPivots_relax_single[OF assms, of env B w next_Wi W]
    BMSSP_relax_single[OF assms, of env B Bi B_prime_i w D K]
    BaseCase_relax_single[OF assms(3), of B current_d current_alpha u w H]
  by blast

definition relax_example_frontier :: frontier where
  "relax_example_frontier = new_frontier 1 PInf"

theorem relaxation_rule_at_sites_witness:
  "d_hat relax_example_state 0 = Some (Fin 1) \<and>
   path_alpha relax_example_state 0 = Some 1 \<and>
   pred relax_example_state 1 = Some (Some 7) \<and>
   map_option fst (FindPivots_relax module_env (Fin 20) 0 [(1, Fin 5)]
                     (relax_example_state, [], [])) =
     Some (apply_update relax_example_state 1 (Fin 6) 2 0) \<and>
   map_option fst (BMSSP_relax module_env (Fin 20) (Fin 3) (Fin 1) 0 [(1, Fin 5)]
                     (relax_example_state, relax_example_frontier, [])) =
     Some (apply_update relax_example_state 1 (Fin 6) 2 0) \<and>
   map_option fst (BaseCase_relax (Fin 20) (Fin 1) 1 0 [(1, Fin 5)] (relax_example_state, [])) =
     Some (apply_update relax_example_state 1 (Fin 6) 2 0)"
proof -
  note f = relax_example_facts
  have acc: "tie_break_accepts (fadd (Fin 1) (Fin 5), 1 + 1, 0)
     (d_get relax_example_state 1, alpha_get relax_example_state 1, 7)"
    using relax_example_accepts by (simp only: f)
  note t = relaxation_rule_at_sites[OF f(1) f(2) f(3), of module_env "Fin 20" "Fin 5" "[]" "[]"
      "Fin 3" "Fin 1" relax_example_frontier "[]" "Fin 1" 1 "[]"]
  have ex: "\<exists>r. BMSSP_relax module_env (Fin 20) (Fin 3) (Fin 1) 0 [(1, Fin 5)]
                     (relax_example_state, relax_example_frontier, []) = Some r"
    using f acc
    by (simp add: update_needed_rule module_env_def Insert_def relax_example_frontier_def
        new_frontier_def Let_def)
  have six: "fadd (Fin 1) (Fin 5) = Fin 6" "(1::enat) + 1 = 2" by (simp_all add: one_add_one)
  from t ex acc f show ?thesis
    by (auto simp: relax_state_def six less_pyfloat_def)
qed

section \<open>Claim C4: where a relaxed neighbour goes\<close>

lemma BMSSP_relax_keeps_K:
  "HEURISTICS_ENABLED env \<Longrightarrow> HEURISTICS_RELAX_INSERT env \<Longrightarrow>
   BMSSP_relax env B Bi B_prime_i u es (st, D, K) = Some (st', D', K') \<Longrightarrow> K' = K"
proof (induction es arbitrary: st D K)
  case Nil
  then show ?case by simp
next
  case (Cons e es)
  obtain v w where e: "e = (v, w)" by (cases e) auto
  from Cons.prems(3) show ?case
    unfolding e
    by (auto simp: Let_def Cons.prems(1,2) split: option.splits if_splits
        dest: Cons.IH[OF Cons.prems(1,2)])
qed

lemma BMSSP_relax_all_keeps_K:
  "HEURISTICS_ENABLED env \<Longrightarrow> HEURISTICS_RELAX_INSERT env \<Longrightarrow>
   BMSSP_relax_all env B Bi B_prime_i g Ui (st, D, K) = Some (st', D', K') \<Longrightarrow> K' = K"
proof (induction Ui arbitrary: st D K)
  case Nil
  then show ?case by simp
next
  case (Cons u Ui)
  from Cons.prems(3) obtain st1 D1 K1 where
    a: "BMSSP_relax env B Bi B_prime_i u (adj g u) (st, D, K) = Some (st1, D1, K1)" and
    b: "BMSSP_relax_all env B Bi B_prime_i g Ui (st1, D1, K1) = Some (st', D', K')"
    by (auto split: option.splits)
  from BMSSP_relax_keeps_K[OF Cons.prems(1,2) a] Cons.IH[OF Cons.prems(1,2) b]
  show ?case by simp
qed

lemma BMSSP_relax_single_routing:
  assumes "d_hat st u = Some du" "path_alpha st u = Some au"
    and "update_needed st (fadd du w) (au + 1) u v = Some True"
    and "BMSSP_relax env B Bi B_prime_i u [(v, w)] (st, D, K) = Some (st', D', K')"
  shows "(HEURISTICS_ENABLED env \<and> HEURISTICS_RELAX_INSERT env \<longrightarrow>
            Insert v (fadd du w) (au + 1) (Some u) D = Some D' \<and> K' = K) \<and>
         (\<not> (HEURISTICS_ENABLED env \<and> HEURISTICS_RELAX_INSERT env) \<longrightarrow>
            (Bi \<le> fadd du w \<and> fadd du w < B \<longrightarrow>
               Insert v (fadd du w) (au + 1) (Some u) D = Some D' \<and> K' = K) \<and>
            (\<not> (Bi \<le> fadd du w \<and> fadd du w < B) \<and> B_prime_i \<le> fadd du w \<and> fadd du w < Bi \<longrightarrow>
               D' = D \<and> K' = K @ [(v, fadd du w, au + 1, Some u)]) \<and>
            (\<not> (Bi \<le> fadd du w \<and> fadd du w < B) \<and> \<not> (B_prime_i \<le> fadd du w \<and> fadd du w < Bi) \<longrightarrow>
               D' = D \<and> K' = K))"
  using assms by (auto simp: Let_def split: option.splits if_splits)

definition relax_example_inserted :: frontier where
  "relax_example_inserted = add_to_value_bucket (Fin 6) 1 2 (Some 0) relax_example_frontier"

lemma relax_example_run:
  "BMSSP_relax module_env (Fin 20) (Fin 8) (Fin 1) 0 [(1, Fin 5)]
      (relax_example_state, relax_example_frontier, []) =
   Some (apply_update relax_example_state 1 (Fin 6) 2 0, relax_example_inserted, [])"
proof -
  have un: "update_needed relax_example_state (Fin 6) 2 0 1 = Some True"
    by (simp add: update_needed_rule[OF relax_example_facts(3)] relax_example_facts
        tie_break_accepts_def)
  have ins: "Insert 1 (Fin 6) 2 (Some 0) relax_example_frontier = Some relax_example_inserted"
    by (simp add: Insert_def relax_example_frontier_def new_frontier_def
        relax_example_inserted_def)
  have six: "(1::enat) + 1 = 2" by (simp add: one_add_one)
  show ?thesis
    by (simp add: relax_example_facts six un ins module_env_def)
qed

text \<open>
  C4 as stated fails under the shipped flags: an accepted new distance 6 lies in
  \<open>[B'_i, Bi) = [1, 8)\<close>, yet the neighbour is inserted into the frontier at once and nothing
  is queued for batch-prepend.
\<close>

theorem relaxed_neighbor_inserted_not_queued:
  "BMSSP_relax module_env (Fin 20) (Fin 8) (Fin 1) 0 [(1, Fin 5)]
      (relax_example_state, relax_example_frontier, []) =
     Some (apply_update relax_example_state 1 (Fin 6) 2 0, relax_example_inserted, []) \<and>
   Fin 1 \<le> Fin 6 \<and> Fin 6 < Fin 8 \<and>
   map_of (d_key_to_value relax_example_inserted) 1 = Some (Fin 6) \<and>
   map_of (d_key_to_value relax_example_frontier) 1 = None"
proof -
  have "map_of (d_key_to_value relax_example_inserted) 1 = Some (Fin 6)" by code_simp
  moreover have "map_of (d_key_to_value relax_example_frontier) 1 = None" by code_simp
  ultimately show ?thesis using relax_example_run by simp
qed

text \<open>
  C4, amended. When the outgoing edges of the vertices in \<open>Ui\<close> are relaxed after a recursive
  call, a neighbour whose update is accepted is, under the shipped flags
  \<open>HEURISTICS_ENABLED\<close> and \<open>HEURISTICS_RELAX_INSERT\<close>, inserted directly into the level's
  frontier whatever its new distance, and the relaxation queues nothing for batch-prepend.
  Only with the heuristic off is a neighbour with new distance in \<open>[Bi, B)\<close> inserted
  directly, one with new distance in \<open>[B'_i, Bi)\<close> queued for batch-prepend, and any other
  left out of both.
\<close>

theorem relaxed_neighbor_routing:
  assumes "d_hat st u = Some du" "path_alpha st u = Some au"
    and "update_needed st (fadd du w) (au + 1) u v = Some True"
    and "BMSSP_relax env B Bi B_prime_i u [(v, w)] (st, D, K) = Some (st', D', K')"
  shows "(HEURISTICS_ENABLED env \<and> HEURISTICS_RELAX_INSERT env \<longrightarrow>
            Insert v (fadd du w) (au + 1) (Some u) D = Some D' \<and> K' = K) \<and>
         (\<not> (HEURISTICS_ENABLED env \<and> HEURISTICS_RELAX_INSERT env) \<longrightarrow>
            (Bi \<le> fadd du w \<and> fadd du w < B \<longrightarrow>
               Insert v (fadd du w) (au + 1) (Some u) D = Some D' \<and> K' = K) \<and>
            (\<not> (Bi \<le> fadd du w \<and> fadd du w < B) \<and> B_prime_i \<le> fadd du w \<and> fadd du w < Bi \<longrightarrow>
               D' = D \<and> K' = K @ [(v, fadd du w, au + 1, Some u)]) \<and>
            (\<not> (Bi \<le> fadd du w \<and> fadd du w < B) \<and> \<not> (B_prime_i \<le> fadd du w \<and> fadd du w < Bi) \<longrightarrow>
               D' = D \<and> K' = K)) \<and>
         (\<forall>g Ui s0 D0 K0 s1 D1 K1.
            HEURISTICS_ENABLED env \<and> HEURISTICS_RELAX_INSERT env \<and>
            BMSSP_relax_all env B Bi B_prime_i g Ui (s0, D0, K0) = Some (s1, D1, K1) \<longrightarrow>
            K1 = K0)"
  using BMSSP_relax_single_routing[OF assms] BMSSP_relax_all_keeps_K[of env B Bi B_prime_i]
  by blast

theorem relaxed_neighbor_routing_witness:
  "d_hat relax_example_state 0 = Some (Fin 1) \<and>
   path_alpha relax_example_state 0 = Some 1 \<and>
   update_needed relax_example_state (fadd (Fin 1) (Fin 5)) (1 + 1) 0 1 = Some True \<and>
   BMSSP_relax module_env (Fin 20) (Fin 8) (Fin 1) 0 [(1, Fin 5)]
      (relax_example_state, relax_example_frontier, []) =
     Some (apply_update relax_example_state 1 (Fin 6) 2 0, relax_example_inserted, []) \<and>
   HEURISTICS_ENABLED module_env \<and> HEURISTICS_RELAX_INSERT module_env \<and>
   Insert 1 (fadd (Fin 1) (Fin 5)) (1 + 1) (Some 0) relax_example_frontier =
     Some relax_example_inserted"
proof -
  have un: "update_needed relax_example_state (fadd (Fin 1) (Fin 5)) (1 + 1) 0 1 = Some True"
    by (simp add: update_needed_rule[OF relax_example_facts(3)] relax_example_facts
        tie_break_accepts_def)
  have fl: "HEURISTICS_ENABLED module_env \<and> HEURISTICS_RELAX_INSERT module_env"
    by (simp add: module_env_def)
  from relaxed_neighbor_routing[OF relax_example_facts(1,2) un relax_example_run] fl
  have "Insert 1 (fadd (Fin 1) (Fin 5)) (1 + 1) (Some 0) relax_example_frontier =
          Some relax_example_inserted" by blast
  with un fl relax_example_run relax_example_facts(1,2) show ?thesis by blast
qed

section \<open>Claim C5: what BaseCase returns\<close>

lemma fold_set_add:
  "set (fold set_add xs acc) = set xs \<union> set acc"
  "distinct acc \<Longrightarrow> distinct (fold set_add xs acc)"
  "length (fold set_add xs acc) \<le> length xs + length acc"
proof (induction xs arbitrary: acc)
  case Nil
  { case 1 show ?case by simp }
  { case 2 then show ?case by simp }
  { case 3 show ?case by simp }
next
  case (Cons x xs)
  { case 1 show ?case by (simp add: Cons.IH(1) set_set_add) }
  { case 2 then show ?case by (simp add: Cons.IH(2) distinct_set_add) }
  { case 3
    have "length (fold set_add xs (set_add x acc)) \<le> length xs + length (set_add x acc)"
      by (rule Cons.IH(3))
    then show ?case by (simp add: length_set_add split: if_splits) }
qed

lemma py_set_props:
  "set (py_set xs) = set xs" "distinct (py_set xs)" "length (py_set xs) \<le> length xs"
  using fold_set_add(1)[of xs "[]"] fold_set_add(2)[of "[]" xs] fold_set_add(3)[of xs "[]"]
  by (simp_all add: py_set_def)

lemma update_new_key: "k \<notin> fst ` set al \<Longrightarrow> AList.update k v al = al @ [(k, v)]"
  by (induction al) auto

definition candidates_inv :: "nat \<Rightarrow> pyset \<Rightarrow> (int \<times> pyfloat) list \<Rightarrow> bool" where
  "candidates_inv k U0 candidates \<longleftrightarrow>
     distinct U0 \<and> length U0 \<le> k + 1 \<and> distinct (map fst candidates) \<and>
     set (map fst candidates) = set U0 \<and> length candidates = length U0"

lemma BaseCase_loop_inv:
  "candidates_inv (k_param env) U0 candidates \<Longrightarrow>
   BaseCase_loop env B g st H U0 candidates = Some (st', U0', candidates') \<Longrightarrow>
   candidates_inv (k_param env) U0' candidates'"
proof (induction env B g st H U0 candidates rule: BaseCase_loop.induct)
  case (1 env B g st H U0 candidates)
  show ?case
  proof (cases "H = [] \<or> \<not> length U0 < k_param env + 1")
    case True
    with "1.prems" show ?thesis by (subst (asm) BaseCase_loop.simps) simp
  next
    case False
    define e where "e = heap_min H"
    define H1 where "H1 = remove1 e H"
    define current_d where "current_d = fst e"
    define current_alpha where "current_alpha = fst (snd e)"
    define u where "u = fst (snd (snd e))"
    note defs = e_def H1_def current_d_def current_alpha_def u_def
    have unf: "BaseCase_loop env B g st H U0 candidates =
       (if stale st e then BaseCase_loop env B g st H1 U0 candidates
        else if u \<in> set U0 then BaseCase_loop env B g st H1 U0 candidates
        else (case BaseCase_relax B current_d current_alpha u (adj g u) (st, H1) of
                None \<Rightarrow> None
              | Some r \<Rightarrow> BaseCase_loop env B g (fst r) (snd r) (set_add u U0)
                            (AList.update u current_d candidates)))"
      unfolding defs using False by (subst BaseCase_loop.simps) (simp add: Let_def)
    show ?thesis
    proof (cases "stale st e")
      case True
      with unf "1.prems"(2) have "BaseCase_loop env B g st H1 U0 candidates = Some (st', U0', candidates')"
        by simp
      from "1.IH"(1)[OF False e_def H1_def current_d_def current_alpha_def u_def True "1.prems"(1) this]
      show ?thesis .
    next
      case ns: False
      show ?thesis
      proof (cases "u \<in> set U0")
        case True
        with unf ns "1.prems"(2)
        have "BaseCase_loop env B g st H1 U0 candidates = Some (st', U0', candidates')" by simp
        from "1.IH"(2)[OF False e_def H1_def current_d_def current_alpha_def u_def ns True
            "1.prems"(1) this]
        show ?thesis .
      next
        case nu: False
        with unf ns "1.prems"(2) obtain r where
          r: "BaseCase_relax B current_d current_alpha u (adj g u) (st, H1) = Some r" and
          l: "BaseCase_loop env B g (fst r) (snd r) (set_add u U0)
                (AList.update u current_d candidates) = Some (st', U0', candidates')"
          by (auto split: option.splits)
        have inv: "candidates_inv (k_param env) (set_add u U0) (AList.update u current_d candidates)"
          using "1.prems"(1) nu False
        proof -
          have "u \<notin> fst ` set candidates" using "1.prems"(1) nu by (simp add: candidates_inv_def)
          then have "AList.update u current_d candidates = candidates @ [(u, current_d)]"
            by (rule update_new_key)
          then show ?thesis
            using "1.prems"(1) nu False unfolding candidates_inv_def
            by (simp add: distinct_set_add length_set_add set_set_add)
        qed
        from "1.IH"(3)[OF False e_def H1_def current_d_def current_alpha_def u_def ns nu r inv l]
        show ?thesis .
      qed
    qed
  qed
qed

text \<open>
  C5. BaseCase completes at most \<open>k + 1\<close> vertices (the set \<open>U0\<close>, with their distances in
  \<open>candidates\<close>). If at most \<open>k\<close> were completed it returns \<open>(B, U0)\<close>; otherwise it returns
  \<open>(B', U)\<close> with \<open>B'\<close> the \<open>(k+1)\<close>-th smallest completed distance and \<open>U\<close> exactly the
  completed vertices whose distance is strictly below \<open>B'\<close>, which are at most \<open>k\<close>.
\<close>

theorem BaseCase_result:
  assumes "BaseCase env B S g st = Some ((B_prime, U), st')"
  shows "\<exists>U0 candidates.
     BaseCase_loop env B g st (BaseCase_seed st S) [] [] = Some (st', U0, candidates) \<and>
     distinct U0 \<and> length U0 \<le> k_param env + 1 \<and>
     distinct (map fst candidates) \<and> set (map fst candidates) = set U0 \<and>
     (length U0 \<le> k_param env \<longrightarrow> B_prime = B \<and> U = U0) \<and>
     (k_param env < length U0 \<longrightarrow>
        B_prime = sort (map snd candidates) ! k_param env \<and>
        set U = {v. \<exists>d. (v, d) \<in> set candidates \<and> d < B_prime} \<and>
        distinct U \<and> length U \<le> k_param env)"
proof -
  from assms obtain U0 candidates where
    loop: "BaseCase_loop env B g st (BaseCase_seed st S) [] [] = Some (st', U0, candidates)"
    by (auto simp: BaseCase_def Let_def split: option.splits if_splits)
  have "candidates_inv (k_param env) [] []" by (simp add: candidates_inv_def)
  from BaseCase_loop_inv[OF this loop]
  have inv: "distinct U0" "length U0 \<le> k_param env + 1" "distinct (map fst candidates)"
    "set (map fst candidates) = set U0" "length candidates = length U0"
    by (simp_all add: candidates_inv_def)
  have small: "B_prime = B \<and> U = U0" if "length U0 \<le> k_param env"
    using assms loop that by (simp add: BaseCase_def)
  have large: "B_prime = sort (map snd candidates) ! k_param env \<and>
        set U = {v. \<exists>d. (v, d) \<in> set candidates \<and> d < B_prime} \<and>
        distinct U \<and> length U \<le> k_param env" if big: "k_param env < length U0"
  proof -
    have len: "k_param env < length (sort (map snd candidates))" using big inv(5) by simp
    have B': "B_prime = sort (map snd candidates) ! k_param env"
      using assms loop big len by (simp add: BaseCase_def Let_def)
    have "U = py_set (map fst (filter (\<lambda>(v, dist). dist < sort (map snd candidates) ! k_param env)
                                   candidates))"
      using assms loop big len by (auto simp: BaseCase_def Let_def)
    then have U: "U = py_set (map fst (filter (\<lambda>(v, dist). dist < B_prime) candidates))"
      unfolding B' .
    have setU: "set U = {v. \<exists>d. (v, d) \<in> set candidates \<and> d < B_prime}"
      unfolding U by (auto simp: py_set_props(1) image_iff)
    have "B_prime \<in> set (sort (map snd candidates))" unfolding B' using len by (rule nth_mem)
    then obtain v where v: "(v, B_prime) \<in> set candidates" by auto
    have "length (filter (\<lambda>(v, dist). dist < B_prime) candidates) < length candidates"
      using v by (intro length_filter_less[of "(v, B_prime)"]) auto
    moreover have "length U \<le> length (filter (\<lambda>(v, dist). dist < B_prime) candidates)"
      unfolding U using py_set_props(3)[of "map fst (filter (\<lambda>(v, dist). dist < B_prime) candidates)"]
      by simp
    ultimately have "length U \<le> k_param env" using inv(2,5) by simp
    moreover have "distinct U" unfolding U by (rule py_set_props(2))
    ultimately show ?thesis using B' setU by blast
  qed
  from loop inv small large show ?thesis by blast
qed

definition BaseCase_example_state :: sssp_state where
  "BaseCase_example_state = init_source 0 (init_vertices 4 module_state)"

theorem BaseCase_result_witness:
  "map_option fst (BaseCase (shipped_env 1 1 4) (Fin 10) [0] (build_graph chain4)
                     BaseCase_example_state) = Some (Fin 1, [0]) \<and>
   (\<exists>st' U0 candidates.
      BaseCase (shipped_env 1 1 4) (Fin 10) [0] (build_graph chain4) BaseCase_example_state =
        Some ((Fin 1, [0]), st') \<and>
      BaseCase_loop (shipped_env 1 1 4) (Fin 10) (build_graph chain4) BaseCase_example_state
        (BaseCase_seed BaseCase_example_state [0]) [] [] = Some (st', U0, candidates) \<and>
      length U0 \<le> k_param (shipped_env 1 1 4) + 1 \<and>
      k_param (shipped_env 1 1 4) < length U0 \<and>
      Fin 1 = sort (map snd candidates) ! k_param (shipped_env 1 1 4) \<and>
      set [0] = {v. \<exists>d. (v, d) \<in> set candidates \<and> d < Fin 1})"
proof -
  have ev: "map_option fst (BaseCase (shipped_env 1 1 4) (Fin 10) [0] (build_graph chain4)
                     BaseCase_example_state) = Some (Fin 1, [0])"
    by code_simp
  then obtain st' where
    bc: "BaseCase (shipped_env 1 1 4) (Fin 10) [0] (build_graph chain4) BaseCase_example_state =
        Some ((Fin 1, [0]), st')" by auto
  from BaseCase_result[OF bc] obtain U0 candidates where
    r: "BaseCase_loop (shipped_env 1 1 4) (Fin 10) (build_graph chain4) BaseCase_example_state
        (BaseCase_seed BaseCase_example_state [0]) [] [] = Some (st', U0, candidates)"
      "length U0 \<le> k_param (shipped_env 1 1 4) + 1"
      "length U0 \<le> k_param (shipped_env 1 1 4) \<longrightarrow> Fin 1 = Fin 10 \<and> [0] = U0"
      "k_param (shipped_env 1 1 4) < length U0 \<longrightarrow>
        Fin 1 = sort (map snd candidates) ! k_param (shipped_env 1 1 4) \<and>
        set [0] = {v. \<exists>d. (v, d) \<in> set candidates \<and> d < Fin 1} \<and>
        distinct [0::int] \<and> length [0::int] \<le> k_param (shipped_env 1 1 4)"
    by blast
  have big: "k_param (shipped_env 1 1 4) < length U0"
  proof (rule ccontr)
    assume "\<not> k_param (shipped_env 1 1 4) < length U0"
    with r(3) have "Fin 1 = Fin (10::real)" by simp
    then show False by simp
  qed
  from ev bc r(1,2) r(4) big show ?thesis by blast
qed

section \<open>Claim C7: the iteration cap and the stall detector\<close>

lemma BMSSP_loop_cases:
  assumes "BMSSP_loop rec env l B g st D U lb ic sc pv = Some r"
  obtains
    (exit) "\<not> (length U < max_U_size_for_level env l \<and> \<not> is_empty D)"
      "r = (st, D, U, lb, ic)"
  | (cap) "length U < max_U_size_for_level env l" "\<not> is_empty D"
      "max_iterations env < ic + 1" "r = (st, D, U, lb, ic + 1)"
  | (stall) Bi0 Si D1 where
      "length U < max_U_size_for_level env l" "\<not> is_empty D"
      "\<not> max_iterations env < ic + 1" "Pull D = Some (Bi0, Si, D1)"
      "set Si \<subseteq> set pv" "5 < sc + 1" "r = (st, D1, U, lb, ic + 1)"
  | (step) Bi0 Si D1 B_prime_i Ui st1 st2 D2 K items D3 where
      "length U < max_U_size_for_level env l" "\<not> is_empty D"
      "\<not> max_iterations env < ic + 1" "Pull D = Some (Bi0, Si, D1)"
      "\<not> (set Si \<subseteq> set pv \<and> 5 < sc + 1)"
      "rec (adjusted_Bi env st g Bi0 Si) Si st = Some ((B_prime_i, Ui), st1)"
      "BMSSP_relax_all env B (adjusted_Bi env st g Bi0 Si) B_prime_i g Ui (st1, D1, []) =
         Some (st2, D2, K)"
      "requeue_items st2 B_prime_i (adjusted_Bi env st g Bi0 Si) Si = Some items"
      "BatchPrepend (K @ items) D2 = Some D3"
      "BMSSP_loop rec env l B g st2 D3 (fold set_add Ui U) B_prime_i (ic + 1)
         (if set Si \<subseteq> set pv then sc + 1 else 0)
         (if set Si \<subseteq> set pv then pv else fold set_add Si pv) = Some r"
proof (cases "\<not> (length U < max_U_size_for_level env l \<and> \<not> is_empty D)")
  case True
  with assms have "r = (st, D, U, lb, ic)" by (subst (asm) BMSSP_loop.simps) simp
  with True show ?thesis by (rule exit)
next
  case guard: False
  show ?thesis
  proof (cases "max_iterations env < ic + 1")
    case True
    with assms guard have "r = (st, D, U, lb, ic + 1)" by (subst (asm) BMSSP_loop.simps) simp
    with guard True show ?thesis by (intro cap) auto
  next
    case nocap: False
    have unf1: "(case Pull D of
             None \<Rightarrow> None
           | Some (Bi0, Si, D1) \<Rightarrow>
             (let stalled = (set Si \<subseteq> set pv);
                  stall_count' = (if stalled then sc + 1 else 0);
                  processed' = (if stalled then pv else fold set_add Si pv)
              in if stalled \<and> stall_count' > 5
                 then Some (st, D1, U, lb, ic + 1)
                 else
                   (let Bi = adjusted_Bi env st g Bi0 Si
                    in case rec Bi Si st of
                         None \<Rightarrow> None
                       | Some ((B_prime_i, Ui), st1) \<Rightarrow>
                           (case BMSSP_relax_all env B Bi B_prime_i g Ui (st1, D1, []) of
                              None \<Rightarrow> None
                            | Some (st2, D2, K_batch_prepend) \<Rightarrow>
                                (case requeue_items st2 B_prime_i Bi Si of
                                   None \<Rightarrow> None
                                 | Some items \<Rightarrow>
                                     (case BatchPrepend (K_batch_prepend @ items) D2 of
                                        None \<Rightarrow> None
                                      | Some D3 \<Rightarrow>
                                          BMSSP_loop rec env l B g st2 D3
                                            (fold set_add Ui U) B_prime_i
                                            (ic + 1) stall_count' processed')))))) = Some r"
      using assms guard nocap by (subst (asm) BMSSP_loop.simps) (simp only: if_False)
    then obtain Bi0 Si D1 where pull: "Pull D = Some (Bi0, Si, D1)"
      by (cases "Pull D") auto
    show ?thesis
    proof (cases "set Si \<subseteq> set pv \<and> 5 < sc + 1")
      case True
      with unf1 pull have "r = (st, D1, U, lb, ic + 1)" by (simp add: Let_def)
      with guard nocap pull True show ?thesis by (intro stall[of Bi0 Si D1]) auto
    next
      case nostall: False
      then have ns: "\<not> (set Si \<subseteq> set pv \<and> 5 < (if set Si \<subseteq> set pv then sc + 1 else 0))"
        by auto
      from unf1 pull ns
      have unf2: "(case rec (adjusted_Bi env st g Bi0 Si) Si st of
               None \<Rightarrow> None
             | Some ((B_prime_i, Ui), st1) \<Rightarrow>
                 (case BMSSP_relax_all env B (adjusted_Bi env st g Bi0 Si) B_prime_i g Ui
                         (st1, D1, []) of
                    None \<Rightarrow> None
                  | Some (st2, D2, K_batch_prepend) \<Rightarrow>
                      (case requeue_items st2 B_prime_i (adjusted_Bi env st g Bi0 Si) Si of
                         None \<Rightarrow> None
                       | Some items \<Rightarrow>
                           (case BatchPrepend (K_batch_prepend @ items) D2 of
                              None \<Rightarrow> None
                            | Some D3 \<Rightarrow>
                                BMSSP_loop rec env l B g st2 D3 (fold set_add Ui U) B_prime_i
                                  (ic + 1) (if set Si \<subseteq> set pv then sc + 1 else 0)
                                  (if set Si \<subseteq> set pv then pv else fold set_add Si pv))))) =
            Some r"
        by (simp only: option.case prod.case Let_def if_False)
      then obtain B_prime_i Ui st1 where
        rc: "rec (adjusted_Bi env st g Bi0 Si) Si st = Some ((B_prime_i, Ui), st1)"
        by (cases "rec (adjusted_Bi env st g Bi0 Si) Si st") auto
      with unf2 obtain st2 D2 K where
        rl: "BMSSP_relax_all env B (adjusted_Bi env st g Bi0 Si) B_prime_i g Ui (st1, D1, []) =
           Some (st2, D2, K)"
        by (cases "BMSSP_relax_all env B (adjusted_Bi env st g Bi0 Si) B_prime_i g Ui
                     (st1, D1, [])") auto
      with unf2 rc obtain items where
        rq: "requeue_items st2 B_prime_i (adjusted_Bi env st g Bi0 Si) Si = Some items"
        by (cases "requeue_items st2 B_prime_i (adjusted_Bi env st g Bi0 Si) Si") auto
      with unf2 rc rl obtain D3 where
        bp: "BatchPrepend (K @ items) D2 = Some D3"
        by (cases "BatchPrepend (K @ items) D2") auto
      with unf2 rc rl rq have
        lp: "BMSSP_loop rec env l B g st2 D3 (fold set_add Ui U) B_prime_i (ic + 1)
           (if set Si \<subseteq> set pv then sc + 1 else 0)
           (if set Si \<subseteq> set pv then pv else fold set_add Si pv) = Some r"
        by simp
      from guard nocap pull nostall rc rl rq bp lp show ?thesis
        by (intro step[of Bi0 Si D1 B_prime_i Ui st1 st2 D2 K items D3]) auto
    qed
  qed
qed

lemma BMSSP_loop_iteration_bound:
  "BMSSP_loop rec env l B g st D U lb ic sc pv = Some (st', D', U', lb', ic') \<Longrightarrow>
   ic \<le> ic' \<and> ic' \<le> max (ic + 1) (max_iterations env + 1)"
proof (induction "max_iterations env - ic" arbitrary: st D U lb ic sc pv rule: less_induct)
  case less
  from less.prems show ?case
  proof (cases rule: BMSSP_loop_cases)
    case exit
    then show ?thesis by simp
  next
    case cap
    then show ?thesis by simp
  next
    case (stall Bi0 Si D1)
    then show ?thesis by simp
  next
    case (step Bi0 Si D1 B_prime_i Ui st1 st2 D2 K items D3)
    have "max_iterations env - (ic + 1) < max_iterations env - ic" using step(3) by simp
    from less.hyps[OF this step(10)] step(3) show ?thesis by auto
  qed
qed

lemma max_iterations_eq: "max_iterations env = nat (max 1000 (N_vertices env * 10))"
  by (simp add: max_iterations_def)

lemma BMSSP_loop_stall_break:
  assumes "length U < max_U_size_for_level env l" "\<not> is_empty D"
    "ic + 1 \<le> max_iterations env" "Pull D = Some (Bi0, Si, D1)"
    "set Si \<subseteq> set pv" "5 \<le> sc"
  shows "BMSSP_loop rec env l B g st D U lb ic sc pv = Some (st, D1, U, lb, ic + 1)"
  using assms by (subst BMSSP_loop.simps) (simp add: Let_def)

definition frame_example_frontier :: frontier where
  "frame_example_frontier = add_to_value_bucket (Fin 0) 0 0 None (new_frontier 64 PInf)"

definition frame_example_rec ::
  "pyfloat \<Rightarrow> pyset \<Rightarrow> sssp_state \<Rightarrow> ((pyfloat \<times> pyset) \<times> sssp_state) option" where
  "frame_example_rec Bi Si st = BMSSP (shipped_env 1 1 4) 0 Bi Si (build_graph chain4) st"

definition frame_example_loop ::
  "nat \<Rightarrow> pyset \<Rightarrow> (sssp_state \<times> frontier \<times> pyset \<times> pyfloat \<times> nat) option" where
  "frame_example_loop sc pv =
     BMSSP_loop frame_example_rec (shipped_env 1 1 4) 1 PInf (build_graph chain4)
       BaseCase_example_state frame_example_frontier [] (Fin 0) 0 sc pv"

text \<open>
  Claim C7.  A frame's main loop counts its iterations and stops once the count exceeds
  \<open>max (1000, 10 * N_vertices)\<close>: started with the count at \<open>0\<close>, the loop returns with
  a count of at most that cap plus one, the last increment being the one that breaks, so the
  loop body runs at most \<open>max (1000, 10 * N_vertices)\<close> times.  The stall detector breaks
  the loop before the recursive call: when every pulled key was already pulled in this frame
  and this is the sixth such pull in a row, the frame's loop returns at once with the state,
  the set of completed vertices and the last boundary unchanged.
\<close>
theorem BMSSP_loop_terminates_within_cap:
  "(BMSSP_loop rec env l B g st D U lb 0 sc pv = Some (st', D', U', lb', iteration_count) \<longrightarrow>
      iteration_count \<le> max_iterations env + 1) \<and>
   max_iterations env = nat (max 1000 (N_vertices env * 10)) \<and>
   (length U < max_U_size_for_level env l \<and> \<not> is_empty D \<and> ic + 1 \<le> max_iterations env \<and>
    Pull D = Some (Bi, Si, D_pulled) \<and> set Si \<subseteq> set pv \<and> 5 \<le> sc \<longrightarrow>
      BMSSP_loop rec env l B g st D U lb ic sc pv = Some (st, D_pulled, U, lb, ic + 1))"
proof (intro conjI impI)
  assume "BMSSP_loop rec env l B g st D U lb 0 sc pv = Some (st', D', U', lb', iteration_count)"
  from BMSSP_loop_iteration_bound[OF this] show "iteration_count \<le> max_iterations env + 1"
    by simp
next
  show "max_iterations env = nat (max 1000 (N_vertices env * 10))" by (rule max_iterations_eq)
next
  assume "length U < max_U_size_for_level env l \<and> \<not> is_empty D \<and>
    ic + 1 \<le> max_iterations env \<and> Pull D = Some (Bi, Si, D_pulled) \<and> set Si \<subseteq> set pv \<and> 5 \<le> sc"
  then show "BMSSP_loop rec env l B g st D U lb ic sc pv = Some (st, D_pulled, U, lb, ic + 1)"
    by (intro BMSSP_loop_stall_break) blast+
qed

theorem BMSSP_loop_terminates_within_cap_witness:
  "map_option (\<lambda>r. snd (snd (snd (snd r)))) (frame_example_loop 0 []) = Some 2 \<and>
   (2::nat) \<le> max_iterations (shipped_env 1 1 4) + 1 \<and>
   max_iterations (shipped_env 1 1 4) = 1000 \<and>
   map_option (\<lambda>r. fst (snd r)) (Pull frame_example_frontier) = Some [0] \<and>
   map_option (\<lambda>r. (fst (snd (snd r)), fst (snd (snd (snd r))), snd (snd (snd (snd r)))))
     (frame_example_loop 5 [0]) = Some ([], Fin 0, 1)"
proof -
  have ev: "map_option (\<lambda>r. snd (snd (snd (snd r)))) (frame_example_loop 0 []) = Some 2"
    by code_simp
  then obtain st' D' U' lb' where run: "frame_example_loop 0 [] = Some (st', D', U', lb', 2)"
    by (cases "frame_example_loop 0 []") auto
  have ps: "map_option (\<lambda>r. fst (snd r)) (Pull frame_example_frontier) = Some [0]" by code_simp
  then obtain Bi0 D1 where pull: "Pull frame_example_frontier = Some (Bi0, [0], D1)"
    by (cases "Pull frame_example_frontier") auto
  have mi: "max_iterations (shipped_env 1 1 4) = 1000"
    by (simp add: max_iterations_def shipped_env_def)
  have g1: "length ([]::int list) < max_U_size_for_level (shipped_env 1 1 4) 1"
    by (simp add: max_U_size_for_level_def shipped_env_def)
  have g2: "\<not> is_empty frame_example_frontier" by code_simp
  note bound = BMSSP_loop_terminates_within_cap[where rec = frame_example_rec
      and env = "shipped_env 1 1 4" and l = 1 and B = PInf and g = "build_graph chain4"
      and st = BaseCase_example_state and D = frame_example_frontier and U = "[]"
      and lb = "Fin 0" and sc = 0 and pv = "[]" and st' = st' and D' = D' and U' = U'
      and lb' = lb' and iteration_count = 2]
  note stall = BMSSP_loop_terminates_within_cap[where rec = frame_example_rec
      and env = "shipped_env 1 1 4" and l = 1 and B = PInf and g = "build_graph chain4"
      and st = BaseCase_example_state and D = frame_example_frontier and U = "[]"
      and lb = "Fin 0" and sc = 5 and pv = "[0]" and ic = 0 and Bi = Bi0 and Si = "[0]"
      and D_pulled = D1]
  from bound run have b: "(2::nat) \<le> max_iterations (shipped_env 1 1 4) + 1"
    by (simp add: frame_example_loop_def)
  from stall g1 g2 mi pull
  have "frame_example_loop 5 [0] = Some (BaseCase_example_state, D1, [], Fin 0, 0 + 1)"
    by (simp add: frame_example_loop_def)
  then have s: "map_option (\<lambda>r. (fst (snd (snd r)), fst (snd (snd (snd r))),
        snd (snd (snd (snd r))))) (frame_example_loop 5 [0]) = Some ([], Fin 0, 1)"
    by simp
  from ev b mi ps s show ?thesis by blast
qed

end
